theory Spec2Isabelle
  imports Complex_Main "HOL-Library.Word"
begin

unbundle bit_operations_syntax

section \<open>Data model\<close>

text \<open>
  A channel of the image and a byte of the ciphertext are 8-bit values; the words of a
  crypto-es \<open>WordArray\<close> are 32-bit values (the bit operators of the source work on
  32 bits).
\<close>

type_synonym byte = "8 word"

record WordArray =
  "words" :: "32 word list"
  sigBytes :: nat

text \<open>
  The numbers of the source that can fail to be an integer: \<open>parseInt\<close> returns
  \<open>NaN\<close> when it finds no digit, negative zero for \<open>-0\<close>, and an infinity for a
  value beyond the doubles; a division by zero gives the infinity of its sign. \<open>Num i\<close> is
  the double whose value is the integer \<open>i\<close>, and \<open>Num 0\<close> is positive zero.
\<close>

datatype jsnum = NaN | PosInf | NegInf | NegZero | Num int

record StegKey =
  key :: WordArray
  firstPixelIndex :: jsnum
  aliasCount :: jsnum
  msgLength :: jsnum

text \<open>Every \<open>throw\<close> of the engine, and the \<open>TypeError\<close> of reading a property of \<open>undefined\<close>.\<close>

datatype error =
    KeyTooShort
  | ImageNotInitialized
  | MessageTooLong nat nat
  | InvariantViolated
  | PixelIndexOutOfRange nat nat
  | PointerTooShort
  | ChannelCountMismatch
  | UndefinedPixel
  | InvalidArrayLength

text \<open>
  The functions of the imported libraries (crypto-es and isaac), taken as parameters:
  \<^item> \<open>HmacSHA256 lib p K\<close> is \<open>HmacSHA256(WordArray.create(p), K)\<close> for the bytes \<open>p\<close>;
  \<^item> \<open>toString lib K\<close> is \<open>K.toString()\<close> and \<open>Hex_parse lib s\<close> is \<open>Hex.parse(s)\<close>;
  \<^item> \<open>AES_encrypt lib K msg\<close> is the word array the encryptor made from \<open>K\<close> returns for
    \<open>Utf8.parse(msg)\<close>, \<open>AES_decrypt lib K ct\<close> what the decryptor returns;
  \<^item> \<open>isaac_index lib seed n k\<close> is the value of \<open>Math.floor(isaac.random() * n)\<close> at call
    number \<open>k\<close> (from 0) after \<open>isaac.seed(seed)\<close>.
\<close>

record crypto_lib =
  HmacSHA256 :: "byte list \<Rightarrow> WordArray \<Rightarrow> WordArray"
  toString :: "WordArray \<Rightarrow> string"
  Hex_parse :: "string \<Rightarrow> WordArray"
  AES_encrypt :: "WordArray \<Rightarrow> string \<Rightarrow> WordArray"
  AES_decrypt :: "WordArray \<Rightarrow> WordArray \<Rightarrow> WordArray"
  isaac_index :: "string \<Rightarrow> nat \<Rightarrow> nat \<Rightarrow> nat"

section \<open>StegHelpers\<close>

subsection \<open>Word arrays and byte arrays\<close>

text \<open>
  Reading \<open>words[j]\<close>: an element that is not there is \<open>undefined\<close>, which
  \<open>>>>\<close> and \<open>|| 0\<close> both turn into 0.
\<close>

definition word_at :: "32 word list \<Rightarrow> nat \<Rightarrow> 32 word" where
  "word_at ws j = (if j < length ws then ws ! j else 0)"

text \<open>
  Writing \<open>words[j] = v\<close>: an index past the end extends the array; the holes this would
  leave read as \<open>undefined\<close>, that is as 0 for \<open>word_at\<close>.
\<close>

definition array_set :: "32 word list \<Rightarrow> nat \<Rightarrow> 32 word \<Rightarrow> 32 word list" where
  "array_set ws j v =
     (if j < length ws then ws[j := v] else ws @ replicate (j - length ws) 0 @ [v])"

definition wordArrayToUint8Array :: "WordArray \<Rightarrow> byte list" where
  "wordArrayToUint8Array wa =
     map (\<lambda>i. ucast (drop_bit (24 - (i mod 4) * 8) (word_at (words wa) (i div 4)) AND 0xff))
       [0..<sigBytes wa]"

definition uint8ArrayToWordArray :: "byte list \<Rightarrow> WordArray" where
  "uint8ArrayToWordArray u8 =
     \<lparr>words =
        fold (\<lambda>i ws. array_set ws (i div 4)
                (word_at ws (i div 4) OR push_bit (24 - (i mod 4) * 8) (ucast (u8 ! i))))
          [0..<length u8] [],
      sigBytes = length u8\<rparr>"

subsection \<open>Pointer resolution\<close>

text \<open>\<open>first_16_bits % S_len\<close> is \<open>NaN\<close> for \<open>S_len = 0\<close>: the result \<open>None\<close>.\<close>

definition next_pixel_idx :: "crypto_lib \<Rightarrow> WordArray \<Rightarrow> byte list \<Rightarrow> nat \<Rightarrow> nat option" where
  "next_pixel_idx lib K p S_len =
     (let mac = HmacSHA256 lib p K;
          word = word_at (words mac) 0;
          first_16_bits = drop_bit 16 word AND 0xffff
      in if S_len = 0 then None else Some (unat first_16_bits mod S_len))"

text \<open>
  The specification's wording of the same function: the first two bytes of the tag, read
  as a big-endian 16-bit unsigned integer, modulo the size of the candidate set.
\<close>

definition u16_big_endian :: "byte \<Rightarrow> byte \<Rightarrow> nat" where
  "u16_big_endian hi lo = 256 * unat hi + unat lo"

definition spec_next :: "crypto_lib \<Rightarrow> WordArray \<Rightarrow> byte list \<Rightarrow> nat \<Rightarrow> nat" where
  "spec_next lib K p S_len =
     (let w = word_at (words (HmacSHA256 lib p K)) 0
      in u16_big_endian (ucast (drop_bit 24 w)) (ucast (drop_bit 16 w)) mod S_len)"

subsection \<open>Strings and numbers of the serialised key\<close>

definition is_ws :: "char \<Rightarrow> bool" where
  "is_ws c = (of_char c \<in> {9, 10, 11, 12, 13, 32, 160 :: nat})"

definition trim :: "string \<Rightarrow> string" where
  "trim s = rev (dropWhile is_ws (rev (dropWhile is_ws s)))"

definition slice :: "string \<Rightarrow> nat \<Rightarrow> nat \<Rightarrow> string" where
  "slice s a b = take (b - a) (drop a s)"

definition padStart :: "nat \<Rightarrow> string \<Rightarrow> string" where
  "padStart n s = replicate (n - length s) (CHR ''0'') @ s"

definition hex_digit :: "char \<Rightarrow> nat option" where
  "hex_digit c =
     (let n = of_char c :: nat
      in if 48 \<le> n \<and> n \<le> 57 then Some (n - 48)
         else if 97 \<le> n \<and> n \<le> 102 then Some (n - 87)
         else if 65 \<le> n \<and> n \<le> 70 then Some (n - 55)
         else None)"

definition hex_value :: "string \<Rightarrow> nat" where
  "hex_value ds = foldl (\<lambda>a c. 16 * a + (case hex_digit c of Some d \<Rightarrow> d | None \<Rightarrow> 0)) 0 ds"

text \<open>The number of binary digits of a natural number.\<close>

fun bit_length :: "nat \<Rightarrow> nat" where
  "bit_length n = (if n = 0 then 0 else Suc (bit_length (n div 2)))"

declare bit_length.simps [simp del]

text \<open>
  The Number value of an integer given by its sign and its magnitude \<open>m\<close>: the nearest
  double, whose significand has 53 binary digits, the even one of two that are equally
  near, and an infinity from \<open>2\<^sup>1\<^sup>0\<^sup>2\<^sup>4\<close> on. A negative sign on zero gives negative zero.
\<close>

definition to_double :: "bool \<Rightarrow> nat \<Rightarrow> jsnum" where
  "to_double neg m =
     (if m = 0 then (if neg then NegZero else Num 0)
      else
        let e = bit_length m - 53;
            q = m div 2 ^ e;
            r = m mod 2 ^ e;
            q' = (if 2 ^ e < 2 * r \<or> (2 * r = 2 ^ e \<and> odd q) then q + 1 else q);
            v = q' * 2 ^ e
        in if 2 ^ 1024 \<le> v then (if neg then NegInf else PosInf)
           else Num (if neg then - int v else int v))"

text \<open>
  \<open>parseInt(s, 16)\<close>: leading white space is skipped, then a sign, then \<open>0x\<close>; the value
  is that of the longest run of hexadecimal digits that follows, as a double with the
  sign, \<open>NaN\<close> when the run is empty.
\<close>

definition parseInt16 :: "string \<Rightarrow> jsnum" where
  "parseInt16 s =
     (let s1 = dropWhile is_ws s;
          neg = (case s1 of c # _ \<Rightarrow> c = CHR ''-'' | [] \<Rightarrow> False);
          s2 = (case s1 of c # r \<Rightarrow> if c = CHR ''-'' \<or> c = CHR ''+'' then r else s1 | [] \<Rightarrow> s1);
          s3 = (case s2 of a # b # r \<Rightarrow>
                  if a = CHR ''0'' \<and> (b = CHR ''x'' \<or> b = CHR ''X'') then r else s2
                | _ \<Rightarrow> s2);
          ds = takeWhile (\<lambda>c. hex_digit c \<noteq> None) s3
      in if ds = [] then NaN else to_double neg (hex_value ds))"

definition hex_char :: "nat \<Rightarrow> char" where
  "hex_char d = (if d < 10 then char_of (48 + d) else char_of (87 + d))"

fun hex_of_nat :: "nat \<Rightarrow> string" where
  "hex_of_nat n = (if n < 16 then [hex_char n] else hex_of_nat (n div 16) @ [hex_char (n mod 16)])"

declare hex_of_nat.simps [simp del]

text \<open>\<open>x.toString(16)\<close>; negative zero prints as \<open>0\<close>.\<close>

definition toString16 :: "jsnum \<Rightarrow> string" where
  "toString16 x =
     (case x of
        NaN \<Rightarrow> ''NaN''
      | PosInf \<Rightarrow> ''Infinity''
      | NegInf \<Rightarrow> ''-Infinity''
      | NegZero \<Rightarrow> ''0''
      | Num i \<Rightarrow> if i < 0 then CHR ''-'' # hex_of_nat (nat (- i)) else hex_of_nat (nat i))"

subsection \<open>The serialised key\<close>

definition packageKey :: "crypto_lib \<Rightarrow> StegKey \<Rightarrow> string" where
  "packageKey lib keyObj =
     toString lib (key keyObj)
     @ padStart 4 (toString16 (aliasCount keyObj))
     @ padStart 4 (toString16 (msgLength keyObj))
     @ toString16 (firstPixelIndex keyObj)"

definition unpackageKey :: "crypto_lib \<Rightarrow> string \<Rightarrow> error + StegKey" where
  "unpackageKey lib packed =
     (let s = trim packed
      in if length s < 72 then Inl KeyTooShort
         else
           let keyHex = slice s 0 64;
               aliasHex = slice s 64 68;
               lenHex = slice s 68 72;
               firstHex = drop 72 s
           in Inr \<lparr>key = Hex_parse lib keyHex,
                   firstPixelIndex = parseInt16 firstHex,
                   aliasCount = parseInt16 aliasHex,
                   msgLength = parseInt16 lenHex\<rparr>)"


section \<open>StegPointer and StegPixel\<close>

definition POINTER_CHANNEL_COUNT :: nat where
  "POINTER_CHANNEL_COUNT = 2"

definition DEFAULT_TOTAL_POINTERS :: nat where
  "DEFAULT_TOTAL_POINTERS = 2 ^ (8 * POINTER_CHANNEL_COUNT)"

definition DEFAULT_POINTER_ALIASES :: nat where
  "DEFAULT_POINTER_ALIASES = 32"

abbreviation (input) RED :: nat where "RED \<equiv> 0"
abbreviation (input) GREEN :: nat where "GREEN \<equiv> 1"
abbreviation (input) BLUE :: nat where "BLUE \<equiv> 2"
abbreviation (input) ALPHA :: nat where "ALPHA \<equiv> 3"

text \<open>
  A \<open>StegPointer\<close> holds nothing but its bytes, and \<open>equals\<close> compares length and
  elements: a pointer is its byte list, \<open>equals\<close> is equality.
\<close>

type_synonym Pointer = "byte list"

definition new_StegPointer :: "byte list \<Rightarrow> error + Pointer" where
  "new_StegPointer frm =
     (if length frm > POINTER_CHANNEL_COUNT then Inr (take POINTER_CHANNEL_COUNT (drop 1 frm))
      else if length frm = POINTER_CHANNEL_COUNT then Inr frm
      else Inl PointerTooShort)"

record StegPixel =
  bytes :: "byte list"
  originalBytes :: "byte list"
  index :: nat
  pointer :: Pointer

definition new_StegPixel :: "byte list \<Rightarrow> nat \<Rightarrow> error + StegPixel" where
  "new_StegPixel pixel idx =
     (let bs = (if length pixel = 4 then pixel else replicate 4 0)
      in case new_StegPointer pixel of
           Inl e \<Rightarrow> Inl e
         | Inr ptr \<Rightarrow> Inr \<lparr>bytes = bs, originalBytes = bs, index = idx, pointer = ptr\<rparr>)"

text \<open>
  Reading an element of a typed array to store it in another one: an element that is
  not there is \<open>undefined\<close>, stored as 0.
\<close>

definition channel_at :: "byte list \<Rightarrow> nat \<Rightarrow> byte" where
  "channel_at xs i = (if i < length xs then xs ! i else 0)"

text \<open>
  \<open>this.bytes\<close> always has four channels (the constructor sees to it and a typed array
  keeps its length), so \<open>new StegPointer(this.bytes)\<close> is its channels 1 and 2.
\<close>

definition setChannel :: "StegPixel \<Rightarrow> nat \<Rightarrow> byte \<Rightarrow> StegPixel" where
  "setChannel px channel v =
     (let bs = (bytes px)[channel := v]
      in px\<lparr>bytes := bs, pointer := take POINTER_CHANNEL_COUNT (drop 1 bs)\<rparr>)"

definition setPointer :: "StegPixel \<Rightarrow> Pointer \<Rightarrow> StegPixel" where
  "setPointer px ptr =
     px\<lparr>bytes := (bytes px)[1 := channel_at ptr 0, 2 := channel_at ptr 1], pointer := ptr\<rparr>"

text \<open>
  The Euclidean distance of two pixels. The squares are integers below \<open>2\<^sup>1\<^sup>8\<close>, on
  which the rounded square root of the source is strictly monotone, as \<open>sqrt\<close> is.
\<close>

definition similarity :: "StegPixel \<Rightarrow> StegPixel \<Rightarrow> error + real" where
  "similarity a b =
     (if length (bytes a) \<noteq> length (bytes b) then Inl ChannelCountMismatch
      else Inr (sqrt (real_of_int (\<Sum>(x, y)\<leftarrow>zip (bytes a) (bytes b). (uint x - uint y)\<^sup>2))))"

section \<open>StegImage\<close>

record StegImage =
  isReady :: bool
  channels :: "byte list"
  width :: nat
  height :: nat

definition getPixelAt :: "StegImage \<Rightarrow> nat \<Rightarrow> error + StegPixel" where
  "getPixelAt img idx =
     (let pixelCount = width img * height img
      in if idx \<ge> pixelCount then Inl (PixelIndexOutOfRange idx pixelCount)
         else
           let channelIndex = idx * 4;
               pixel = [channel_at (channels img) (channelIndex + 0),
                        channel_at (channels img) (channelIndex + 1),
                        channel_at (channels img) (channelIndex + 2),
                        channel_at (channels img) (channelIndex + 3)]
           in new_StegPixel pixel idx)"

text \<open>A write past the end of a typed array is ignored, as \<open>list_update\<close> does.\<close>

definition setPixelAt :: "StegImage \<Rightarrow> StegPixel \<Rightarrow> error + StegImage" where
  "setPixelAt img pixel =
     (let pixelCount = width img * height img
      in if index pixel \<ge> pixelCount then Inl (PixelIndexOutOfRange (index pixel) pixelCount)
         else
           let channelIndex = index pixel * 4
           in Inr (img\<lparr>channels := (channels img)
                 [channelIndex + 0 := channel_at (bytes pixel) RED,
                  channelIndex + 1 := channel_at (bytes pixel) GREEN,
                  channelIndex + 2 := channel_at (bytes pixel) BLUE,
                  channelIndex + 3 := channel_at (bytes pixel) ALPHA]\<rparr>))"

section \<open>The candidate set\<close>

text \<open>\<open>n < x\<close> for a count \<open>n\<close>: false for \<open>NaN\<close>, true for \<open>Infinity\<close> only of the two infinities.\<close>

definition js_lt :: "nat \<Rightarrow> jsnum \<Rightarrow> bool" where
  "js_lt n x =
     (case x of NaN \<Rightarrow> False | PosInf \<Rightarrow> True | NegInf \<Rightarrow> False | NegZero \<Rightarrow> False
      | Num i \<Rightarrow> int n < i)"

text \<open>
  \<open>Math.floor(a / x)\<close> for a positive integer \<open>a\<close>: a division by a zero gives the infinity
  of the sign of the zero, a division by an infinity the zero of its sign, which
  \<open>Math.floor\<close> leaves as they are.
\<close>

definition floor_div :: "nat \<Rightarrow> jsnum \<Rightarrow> jsnum" where
  "floor_div a x =
     (case x of
        NaN \<Rightarrow> NaN
      | PosInf \<Rightarrow> Num 0
      | NegInf \<Rightarrow> NegZero
      | NegZero \<Rightarrow> NegInf
      | Num i \<Rightarrow> if i = 0 then PosInf else Num (int a div i))"

text \<open>\<open>Math.min(x, n)\<close> for a count \<open>n\<close>; negative zero is below zero.\<close>

definition js_min :: "jsnum \<Rightarrow> nat \<Rightarrow> jsnum" where
  "js_min x n =
     (case x of NaN \<Rightarrow> NaN | PosInf \<Rightarrow> Num (int n) | NegInf \<Rightarrow> NegInf | NegZero \<Rightarrow> NegZero
      | Num i \<Rightarrow> Num (min i (int n)))"

text \<open>
  The loop \<open>while (uniqueIndices.size < target) uniqueIndices.add(Math.floor(isaac.random() * pixelCount))\<close>
  on the stream \<open>random\<close> of these indices; \<open>k\<close> counts the calls. A \<open>Set\<close> keeps its
  elements in insertion order. The loop need not end: then the result is \<open>None\<close>.
\<close>

partial_function (option) select_indices ::
  "(nat \<Rightarrow> nat) \<Rightarrow> jsnum \<Rightarrow> nat \<Rightarrow> nat list \<Rightarrow> nat list option" where
  "select_indices random target k uniqueIndices =
     (if js_lt (length uniqueIndices) target
      then select_indices random target (Suc k)
             (if random k \<in> set uniqueIndices then uniqueIndices else uniqueIndices @ [random k])
      else Some uniqueIndices)"

declare select_indices.simps [code]

text \<open>\<open>Array.from(uniqueIndices, (idx) => this.image.getPixelAt(idx))\<close>.\<close>

fun getPixels :: "StegImage \<Rightarrow> nat list \<Rightarrow> error + StegPixel list" where
  "getPixels img [] = Inr []"
| "getPixels img (idx # rest) =
     (case getPixelAt img idx of
        Inl e \<Rightarrow> Inl e
      | Inr px \<Rightarrow> (case getPixels img rest of Inl e \<Rightarrow> Inl e | Inr pxs \<Rightarrow> Inr (px # pxs)))"

section \<open>StegEncoder\<close>

definition aes_encrypt :: "crypto_lib \<Rightarrow> WordArray \<Rightarrow> string \<Rightarrow> byte list" where
  "aes_encrypt lib K msg = wordArrayToUint8Array (AES_encrypt lib K msg)"

text \<open>\<open>x < n\<close> for a count \<open>n\<close>: false for \<open>NaN\<close> and for \<open>Infinity\<close>.\<close>

definition num_lt :: "jsnum \<Rightarrow> nat \<Rightarrow> bool" where
  "num_lt x n =
     (case x of NaN \<Rightarrow> False | PosInf \<Rightarrow> False | NegInf \<Rightarrow> True | NegZero \<Rightarrow> 0 < n
      | Num i \<Rightarrow> i < int n)"

text \<open>
  Phase 0: the alias count and the number of encodable positions that encode works with.
  The branch that lowers the alias count is entered with \<open>L > 0\<close> only, so that the
  division there is one of integers.
\<close>

definition renegotiate :: "nat \<Rightarrow> nat \<Rightarrow> nat \<times> jsnum" where
  "renegotiate requestedAliasCount L =
     (let effectiveAliasCount = requestedAliasCount;
          effectiveEncodingPixelsCount =
            floor_div DEFAULT_TOTAL_POINTERS (Num (int effectiveAliasCount))
      in if num_lt effectiveEncodingPixelsCount L
         then let a = max 1 (DEFAULT_TOTAL_POINTERS div L)
              in (a, floor_div DEFAULT_TOTAL_POINTERS (Num (int a)))
         else (effectiveAliasCount, effectiveEncodingPixelsCount))"

text \<open>\<open>xs.findIndex(P)\<close>: the first position whose element satisfies \<open>P\<close>, or \<open>-1\<close>.\<close>

fun findIndex :: "('a \<Rightarrow> bool) \<Rightarrow> 'a list \<Rightarrow> int" where
  "findIndex P [] = - 1"
| "findIndex P (x # xs) =
     (if P x then 0 else let r = findIndex P xs in if r = - 1 then - 1 else r + 1)"

definition allPointers :: "Pointer list" where
  "allPointers =
     map (\<lambda>p. [of_nat ((p div 256) mod 256), of_nat (p mod 256)]) [0..<DEFAULT_TOTAL_POINTERS]"

definition possiblePreviousPointers ::
  "crypto_lib \<Rightarrow> WordArray \<Rightarrow> nat \<Rightarrow> int \<Rightarrow> Pointer list" where
  "possiblePreviousPointers lib K S_len currentPos =
     filter (\<lambda>p. case next_pixel_idx lib K p S_len of None \<Rightarrow> False | Some n \<Rightarrow> int n = currentPos)
       allPointers"

text \<open>
  The pixel that takes the last byte of the message: the first of the pixels sorted by
  the distance of their red channel to that byte (the sort is stable). For an empty
  message the byte is \<open>undefined\<close>: every comparison is \<open>NaN\<close>, which leaves the order as
  it is, and the red channel is set to 0. \<open>setChannel\<close> changes the pixel object itself,
  which \<open>encodablePixels\<close> holds.
\<close>

definition select_last ::
  "StegPixel list \<Rightarrow> byte option \<Rightarrow> error + (StegPixel list \<times> StegPixel \<times> int)" where
  "select_last encodablePixels lastByte =
     (case sort_key (\<lambda>a. case lastByte of None \<Rightarrow> 0 | Some b \<Rightarrow> \<bar>uint (bytes a ! RED) - uint b\<bar>)
             encodablePixels of
        [] \<Rightarrow> Inl UndefinedPixel
      | first # _ \<Rightarrow>
          let currentPixel = setChannel first RED (case lastByte of None \<Rightarrow> 0 | Some b \<Rightarrow> b);
              currentPos = findIndex (\<lambda>p. index p = index currentPixel) encodablePixels
          in Inr (if currentPos < 0 then encodablePixels
                  else encodablePixels[nat currentPos := currentPixel],
                  currentPixel, currentPos))"

text \<open>The pixels in the order the search visits them: exact matches of the red channel, then the others by distance.\<close>

definition candidatePixels :: "StegPixel list \<Rightarrow> byte \<Rightarrow> StegPixel list" where
  "candidatePixels encodablePixels byte =
     (let exactMatchPixels = filter (\<lambda>pixel. bytes pixel ! RED = byte) encodablePixels;
          fallbackPixels =
            sort_key (\<lambda>a. \<bar>uint (bytes a ! RED) - uint byte\<bar>)
              (filter (\<lambda>p. p \<notin> set exactMatchPixels) encodablePixels)
      in exactMatchPixels @ fallbackPixels)"

text \<open>
  The best pixel so far, with its distance and its position in \<open>encodablePixels\<close>;
  \<open>None\<close> is the start, \<open>bestPixel = null\<close> at distance \<open>Infinity\<close>.
\<close>

type_synonym best = "(StegPixel \<times> real \<times> int) option"

datatype outcome = Break best | Continue best

text \<open>The inner loop, over the pointers for one pixel.\<close>

fun try_pointers :: "StegPixel \<Rightarrow> int \<Rightarrow> byte \<Rightarrow> Pointer list \<Rightarrow> best \<Rightarrow> error + outcome" where
  "try_pointers original pos byte [] best = Inr (Continue best)"
| "try_pointers original pos byte (possiblePtr # rest) best =
     (if bytes original ! RED = byte \<and> pointer original = possiblePtr
      then Inr (Break (Some (original, 0, pos)))
      else
        (case new_StegPixel (bytes original) (index original) of
           Inl e \<Rightarrow> Inl e
         | Inr fresh \<Rightarrow>
             (let modifiedPixel = setPointer (setChannel fresh RED byte) possiblePtr
              in (case similarity original modifiedPixel of
                    Inl e \<Rightarrow> Inl e
                  | Inr modifiedPixelDistance \<Rightarrow>
                      (if (case best of
                             None \<Rightarrow> True
                           | Some (_, bestPixelDistance, _) \<Rightarrow>
                               modifiedPixelDistance < bestPixelDistance)
                       then try_pointers original pos byte rest
                              (Some (modifiedPixel, modifiedPixelDistance, pos))
                       else try_pointers original pos byte rest best)))))"

text \<open>The outer loop, over the candidate pixels.\<close>

fun search ::
  "StegPixel list \<Rightarrow> int set \<Rightarrow> byte \<Rightarrow> Pointer list \<Rightarrow> StegPixel list \<Rightarrow> best \<Rightarrow> error + best" where
  "search encodablePixels usedPositions byte ptrs [] best = Inr best"
| "search encodablePixels usedPositions byte ptrs (pixel # rest) best =
     (let pos = findIndex (\<lambda>p. index p = index pixel) encodablePixels
      in if pos = - 1 \<or> pos \<in> usedPositions
         then search encodablePixels usedPositions byte ptrs rest best
         else
           case try_pointers pixel pos byte ptrs best of
             Inl e \<Rightarrow> Inl e
           | Inr (Break b) \<Rightarrow> Inr b
           | Inr (Continue b) \<Rightarrow> search encodablePixels usedPositions byte ptrs rest b)"

text \<open>One backward step of the chain: the pixel for \<open>byte\<close> that points to \<open>currentPos\<close>.\<close>

definition encode_byte ::
  "crypto_lib \<Rightarrow> WordArray \<Rightarrow> StegPixel list \<Rightarrow> int set \<Rightarrow> int \<Rightarrow> byte
     \<Rightarrow> error + (StegPixel \<times> real \<times> int)" where
  "encode_byte lib K encodablePixels usedPositions currentPos byte =
     (case search encodablePixels usedPositions byte
             (possiblePreviousPointers lib K (length encodablePixels) currentPos)
             (candidatePixels encodablePixels byte) None of
        Inl e \<Rightarrow> Inl e
      | Inr None \<Rightarrow> Inl InvariantViolated
      | Inr (Some b) \<Rightarrow> Inr b)"

text \<open>
  The loop over the bytes \<open>msg_e[L - 2], \<dots>, msg_e[0]\<close>; the state is \<open>encodedPixels\<close>,
  \<open>currentPos\<close> and \<open>usedPositions\<close>.
\<close>

fun encode_chain ::
  "crypto_lib \<Rightarrow> WordArray \<Rightarrow> StegPixel list \<Rightarrow> byte list \<Rightarrow> StegPixel list \<times> int \<times> int set
     \<Rightarrow> error + (StegPixel list \<times> int \<times> int set)" where
  "encode_chain lib K encodablePixels [] st = Inr st"
| "encode_chain lib K encodablePixels (byte # rest) (encodedPixels, currentPos, usedPositions) =
     (case encode_byte lib K encodablePixels usedPositions currentPos byte of
        Inl e \<Rightarrow> Inl e
      | Inr (bestPixel, bestPixelDistance, bestPos) \<Rightarrow>
          encode_chain lib K encodablePixels rest
            (encodedPixels @ [bestPixel], bestPos, insert bestPos usedPositions))"

text \<open>From the selected indices to the pixels of the chain and the position of its first pixel.\<close>

definition build_chain ::
  "crypto_lib \<Rightarrow> WordArray \<Rightarrow> StegImage \<Rightarrow> nat list \<Rightarrow> byte list \<Rightarrow> error + (StegPixel list \<times> int)" where
  "build_chain lib K img uniqueIndices msg_e =
     (case getPixels img uniqueIndices of
        Inl e \<Rightarrow> Inl e
      | Inr encodablePixels0 \<Rightarrow>
          (case select_last encodablePixels0 (if msg_e = [] then None else Some (last msg_e)) of
             Inl e \<Rightarrow> Inl e
           | Inr (encodablePixels, currentPixel, currentPos) \<Rightarrow>
               (case encode_chain lib K encodablePixels (rev (butlast msg_e))
                       ([currentPixel], currentPos, {currentPos}) of
                  Inl e \<Rightarrow> Inl e
                | Inr (encodedPixels, firstPos, _) \<Rightarrow> Inr (encodedPixels, firstPos))))"

text \<open>\<open>encodedPixels.forEach(pixel => this.image.setPixelAt(pixel))\<close>, which stops at the first throw.\<close>

fun write_pixels :: "StegImage \<Rightarrow> StegPixel list \<Rightarrow> error option \<times> StegImage" where
  "write_pixels img [] = (None, img)"
| "write_pixels img (pixel # rest) =
     (case setPixelAt img pixel of
        Inl e \<Rightarrow> (Some e, img)
      | Inr img' \<Rightarrow> write_pixels img' rest)"

text \<open>The indices of the candidate set as encode selects them, for a message of \<open>L\<close> bytes.\<close>

definition encoder_indices ::
  "crypto_lib \<Rightarrow> WordArray \<Rightarrow> StegImage \<Rightarrow> nat \<Rightarrow> nat \<Rightarrow> nat list option" where
  "encoder_indices lib K img L requestedAliasCount =
     (let effectiveEncodingPixelsCount = snd (renegotiate requestedAliasCount L);
          pixelCount = width img * height img;
          targetCount = js_min effectiveEncodingPixelsCount pixelCount
      in select_indices (isaac_index lib (toString lib K) pixelCount) targetCount 0 [])"

text \<open>
  The last two steps of encode: the pixels of the chain are written to the image, and the
  key is packaged with the alias count in effect.
\<close>

definition commit ::
  "crypto_lib \<Rightarrow> WordArray \<Rightarrow> StegImage \<Rightarrow> nat \<Rightarrow> nat \<Rightarrow> StegPixel list \<times> int
     \<Rightarrow> (error + string) \<times> StegImage" where
  "commit lib K img L effectiveAliasCount chain =
     (case chain of
        (encodedPixels, currentPos) \<Rightarrow>
          (case write_pixels img encodedPixels of
             (Some e, img') \<Rightarrow> (Inl e, img')
           | (None, img') \<Rightarrow>
               (Inr (packageKey lib
                       \<lparr>key = K,
                        firstPixelIndex = Num currentPos,
                        aliasCount = Num (int effectiveAliasCount),
                        msgLength = Num (int L)\<rparr>),
                img')))"

text \<open>
  \<open>encode\<close>, for the key \<open>K\<close> that the constructor generated. The result is the packaged
  key or the error thrown, with the image as encode leaves it; \<open>None\<close> when the selection
  of pixels does not end. The statistics and the progress reports are left out.
\<close>

definition encode ::
  "crypto_lib \<Rightarrow> WordArray \<Rightarrow> StegImage \<Rightarrow> string \<Rightarrow> nat \<Rightarrow> ((error + string) \<times> StegImage) option" where
  "encode lib K img message requestedAliasCount =
     (if \<not> isReady img then Some (Inl ImageNotInitialized, img)
      else
        let msg_e = aes_encrypt lib K message;
            effectiveAliasCount = fst (renegotiate requestedAliasCount (length msg_e));
            pixelCount = width img * height img
        in if length msg_e > pixelCount
           then Some (Inl (MessageTooLong (length msg_e) pixelCount), img)
           else
             (case encoder_indices lib K img (length msg_e) requestedAliasCount of
                None \<Rightarrow> None
              | Some uniqueIndices \<Rightarrow>
                  Some (case build_chain lib K img uniqueIndices msg_e of
                          Inl e \<Rightarrow> (Inl e, img)
                        | Inr chain \<Rightarrow>
                            commit lib K img (length msg_e) effectiveAliasCount chain)))"

section \<open>StegDecoder\<close>

definition aes_decrypt :: "crypto_lib \<Rightarrow> WordArray \<Rightarrow> byte list \<Rightarrow> WordArray" where
  "aes_decrypt lib K ciphertextBytes = AES_decrypt lib K (uint8ArrayToWordArray ciphertextBytes)"

text \<open>
  \<open>xs[x]\<close> for a number \<open>x\<close>: \<open>undefined\<close> unless \<open>x\<close> is a position of \<open>xs\<close>; negative
  zero is the position 0.
\<close>

definition element_at :: "'a list \<Rightarrow> jsnum \<Rightarrow> 'a option" where
  "element_at xs x =
     (case x of
        NaN \<Rightarrow> None
      | PosInf \<Rightarrow> None
      | NegInf \<Rightarrow> None
      | NegZero \<Rightarrow> (case xs of [] \<Rightarrow> None | y # _ \<Rightarrow> Some y)
      | Num i \<Rightarrow> if 0 \<le> i \<and> i < int (length xs) then Some (xs ! nat i) else None)"

text \<open>
  The length of \<open>new Uint8Array(x)\<close>: \<open>NaN\<close> and negative zero give the empty array; a
  negative length, an infinite one and one above \<open>2\<^sup>5\<^sup>3 - 1\<close> throw.
\<close>

definition new_Uint8Array :: "jsnum \<Rightarrow> error + nat" where
  "new_Uint8Array x =
     (case x of
        NaN \<Rightarrow> Inr 0
      | PosInf \<Rightarrow> Inl InvalidArrayLength
      | NegInf \<Rightarrow> Inl InvalidArrayLength
      | NegZero \<Rightarrow> Inr 0
      | Num i \<Rightarrow> if i < 0 \<or> 2 ^ 53 - 1 < i then Inl InvalidArrayLength else Inr (nat i))"

text \<open>
  The walk along the chain, \<open>n\<close> bytes from \<open>currentPixel\<close>; reading a byte of a pixel
  that is \<open>undefined\<close> throws.
\<close>

fun walk ::
  "crypto_lib \<Rightarrow> WordArray \<Rightarrow> StegPixel list \<Rightarrow> StegPixel option \<Rightarrow> nat \<Rightarrow> error + byte list" where
  "walk lib K decodablePixels currentPixel 0 = Inr []"
| "walk lib K decodablePixels currentPixel (Suc n) =
     (case currentPixel of
        None \<Rightarrow> Inl UndefinedPixel
      | Some px \<Rightarrow>
          (case walk lib K decodablePixels
                  (case next_pixel_idx lib K (pointer px) (length decodablePixels) of
                     None \<Rightarrow> None
                   | Some j \<Rightarrow> element_at decodablePixels (Num (int j)))
                  n of
             Inl e \<Rightarrow> Inl e
           | Inr rest \<Rightarrow> Inr (bytes px ! RED # rest)))"

text \<open>The indices of the candidate set as decode selects them, for the unpacked key.\<close>

definition decoder_indices :: "crypto_lib \<Rightarrow> StegImage \<Rightarrow> StegKey \<Rightarrow> nat list option" where
  "decoder_indices lib img unpackagedKey =
     (let encodingPixelsCount = floor_div DEFAULT_TOTAL_POINTERS (aliasCount unpackagedKey);
          pixelCount = width img * height img
      in select_indices (isaac_index lib (toString lib (key unpackagedKey)) pixelCount)
           encodingPixelsCount 0 [])"

text \<open>
  The constructor (which unpacks the key) and \<open>decode\<close>; \<open>None\<close> when the selection of
  pixels does not end.
\<close>

definition decode :: "crypto_lib \<Rightarrow> StegImage \<Rightarrow> string \<Rightarrow> (error + WordArray) option" where
  "decode lib img packed =
     (case unpackageKey lib packed of
        Inl e \<Rightarrow> Some (Inl e)
      | Inr unpackagedKey \<Rightarrow>
          if \<not> isReady img then Some (Inl ImageNotInitialized)
          else
            (case decoder_indices lib img unpackagedKey of
               None \<Rightarrow> None
             | Some uniqueIndices \<Rightarrow>
                 Some (case getPixels img uniqueIndices of
                         Inl e \<Rightarrow> Inl e
                       | Inr decodablePixels \<Rightarrow>
                           (case new_Uint8Array (msgLength unpackagedKey) of
                              Inl e \<Rightarrow> Inl e
                            | Inr n \<Rightarrow>
                                (case walk lib (key unpackagedKey) decodablePixels
                                        (element_at decodablePixels
                                           (firstPixelIndex unpackagedKey)) n of
                                   Inl e \<Rightarrow> Inl e
                                 | Inr msg_e \<Rightarrow>
                                     Inr (aes_decrypt lib (key unpackagedKey) msg_e))))))"

section \<open>A small instance for the examples\<close>

text \<open>
  A stand-in for the libraries, with which the definitions can be run: the tag of a
  pointer starts with the pointer's own two bytes, a key prints as 64 zeros, the cipher
  is the identity on the bytes of the message, and the random indices go round the image.
\<close>

definition toy_key :: WordArray where
  "toy_key = \<lparr>words = replicate 8 0, sigBytes = 32\<rparr>"

definition toy_lib :: crypto_lib where
  "toy_lib =
     \<lparr>HmacSHA256 = (\<lambda>p K. \<lparr>words = [push_bit 24 (ucast (channel_at p 0))
                                       OR push_bit 16 (ucast (channel_at p 1))], sigBytes = 32\<rparr>),
      toString = (\<lambda>K. replicate 64 (CHR ''0'')),
      Hex_parse = (\<lambda>s. toy_key),
      AES_encrypt = (\<lambda>K msg. uint8ArrayToWordArray (map (\<lambda>c. of_nat (of_char c)) msg)),
      AES_decrypt = (\<lambda>K ct. ct),
      isaac_index = (\<lambda>seed n k. k mod n)\<rparr>"

text \<open>A ready image of 2 by 2 pixels.\<close>

definition toy_image :: StegImage where
  "toy_image =
     \<lparr>isReady = True,
      channels = [65, 0, 5, 255,  66, 9, 9, 255,  30, 0, 2, 255,  40, 0, 3, 255],
      width = 2, height = 2\<rparr>"

text \<open>
  The same stand-in with a tag function that gives every pointer the same tag, so that
  every pointer resolves to position 0.
\<close>

definition flat_lib :: crypto_lib where
  "flat_lib = toy_lib\<lparr>HmacSHA256 := (\<lambda>p K. \<lparr>words = [0], sigBytes = 32\<rparr>)\<rparr>"

section \<open>Auxiliary definitions of the proofs\<close>

text \<open>Byte \<open>i\<close> of a list of words, and one round of the loop of \<open>uint8ArrayToWordArray\<close>.\<close>

definition byte_of :: "32 word list \<Rightarrow> nat \<Rightarrow> byte" where
  "byte_of ws i = ucast (drop_bit (24 - (i mod 4) * 8) (word_at ws (i div 4)) AND 0xff)"

definition wstep :: "byte list \<Rightarrow> nat \<Rightarrow> 32 word list \<Rightarrow> 32 word list" where
  "wstep u8 i ws =
     array_set ws (i div 4)
       (word_at ws (i div 4) OR push_bit (24 - (i mod 4) * 8) (ucast (u8 ! i)))"

text \<open>The error of the capacity check.\<close>

definition capacity_error :: "error \<Rightarrow> bool" where
  "capacity_error e = (case e of MessageTooLong _ _ \<Rightarrow> True | _ \<Rightarrow> False)"

text \<open>A pixel object that has four channels and carries the alpha value of its pixel in the image.\<close>

definition alpha_ok :: "StegImage \<Rightarrow> StegPixel \<Rightarrow> bool" where
  "alpha_ok img px =
     (length (bytes px) = 4 \<and> bytes px ! ALPHA = channel_at (channels img) (index px * 4 + ALPHA))"

definition best_ok :: "StegImage \<Rightarrow> best \<Rightarrow> bool" where
  "best_ok img b = (case b of None \<Rightarrow> True | Some (px, _, _) \<Rightarrow> alpha_ok img px)"

text \<open>Two images of the same size with the same alpha channel.\<close>

definition same_alpha :: "StegImage \<Rightarrow> StegImage \<Rightarrow> bool" where
  "same_alpha img img' =
     (length (channels img') = length (channels img) \<and> width img' = width img
      \<and> height img' = height img
      \<and> (\<forall>i. channel_at (channels img') (i * 4 + ALPHA) = channel_at (channels img) (i * 4 + ALPHA)))"

text \<open>The pixel object that \<open>getPixelAt\<close> makes for the index \<open>i\<close> and the channels \<open>bs\<close>.\<close>

definition toy_px :: "nat \<Rightarrow> byte list \<Rightarrow> StegPixel" where
  "toy_px i bs = \<lparr>bytes = bs, originalBytes = bs, index = i, pointer = take 2 (drop 1 bs)\<rparr>"

text \<open>The pixels of the small image once the last byte 67 of a message is placed.\<close>

definition toy_S :: "StegPixel list" where
  "toy_S =
     [toy_px 0 [65, 0, 5, 255], (toy_px 1 [66, 9, 9, 255])\<lparr>bytes := [67, 9, 9, 255]\<rparr>,
      toy_px 2 [30, 0, 2, 255], toy_px 3 [40, 0, 3, 255]]"

text \<open>The same for the first two pixels of the small image, the candidate set at the alias count 32768.\<close>

definition toy_S2 :: "StegPixel list" where
  "toy_S2 = [toy_px 0 [65, 0, 5, 255], (toy_px 1 [66, 9, 9, 255])\<lparr>bytes := [67, 9, 9, 255]\<rparr>]"

subsection \<open>The search for the pixel of one byte\<close>

text \<open>
  The distance that the search computes for the pixel \<open>original\<close> and the pointer \<open>p\<close>: a new
  pixel object with the channels of \<open>original\<close>, its red channel set to the byte and its
  pointer set to \<open>p\<close>, compared with \<open>original\<close>.
\<close>

definition candidate_distance :: "StegPixel \<Rightarrow> byte \<Rightarrow> Pointer \<Rightarrow> error + real" where
  "candidate_distance original byte p =
     (case new_StegPixel (bytes original) (index original) of
        Inl e \<Rightarrow> Inl e
      | Inr fresh \<Rightarrow> similarity original (setPointer (setChannel fresh RED byte) p))"

text \<open>
  The pairs of a pixel and a pointer in the order in which the two loops of the search visit
  them: the candidate pixels whose position is found and unused, each with every pointer.
\<close>

definition visit_order ::
  "StegPixel list \<Rightarrow> int set \<Rightarrow> byte \<Rightarrow> Pointer list \<Rightarrow> (StegPixel \<times> Pointer) list" where
  "visit_order encodablePixels usedPositions byte ptrs =
     concat (map (\<lambda>pixel. map (\<lambda>p. (pixel, p)) ptrs)
       (filter (\<lambda>pixel. let pos = findIndex (\<lambda>q. index q = index pixel) encodablePixels
                        in \<not> (pos = - 1 \<or> pos \<in> usedPositions))
          (candidatePixels encodablePixels byte)))"

text \<open>A pixel object with four channels whose pointer is its green and blue channels.\<close>

definition pixel_wf :: "StegPixel \<Rightarrow> bool" where
  "pixel_wf px = (length (bytes px) = 4 \<and> pointer px = take 2 (drop 1 (bytes px)))"

text \<open>The pixel object that the search builds for the pixel \<open>original\<close> and the pointer \<open>p\<close>.\<close>

definition modified :: "StegPixel \<Rightarrow> byte \<Rightarrow> Pointer \<Rightarrow> StegPixel" where
  "modified original byte p =
     setPointer
       (setChannel \<lparr>bytes = bytes original, originalBytes = bytes original,
                    index = index original, pointer = take 2 (drop 1 (bytes original))\<rparr> RED byte) p"

text \<open>
  The best pixel \<open>bp\<close> at distance \<open>d\<close> and position \<open>pos\<close> is the first pair of least
  distance among the pairs visited.
\<close>

definition chosen ::
  "StegPixel list \<Rightarrow> byte \<Rightarrow> (StegPixel \<times> Pointer) list \<Rightarrow> StegPixel \<times> real \<times> int \<Rightarrow> bool" where
  "chosen S byte visited b =
     (case b of (bp, d, pos) \<Rightarrow>
        \<exists>pre px p post.
          visited = pre @ (px, p) # post \<and> px \<in> set S
          \<and> pos = findIndex (\<lambda>q. index q = index px) S
          \<and> index bp = index px \<and> pointer bp = p
          \<and> bytes bp = (bytes px)[0 := byte, 1 := channel_at p 0, 2 := channel_at p 1]
          \<and> candidate_distance px byte p = Inr d
          \<and> (0 < d \<or> bp = px)
          \<and> (\<forall>(x, q)\<in>set pre. \<exists>d'. candidate_distance x byte q = Inr d' \<and> d < d')
          \<and> (\<forall>(x, q)\<in>set post. \<exists>d'. candidate_distance x byte q = Inr d' \<and> d \<le> d'))"

text \<open>The invariant of the two loops, as long as no perfect match is found.\<close>

definition scan_inv ::
  "StegPixel list \<Rightarrow> byte \<Rightarrow> (StegPixel \<times> Pointer) list \<Rightarrow> best \<Rightarrow> bool" where
  "scan_inv S byte visited b =
     (case b of None \<Rightarrow> visited = []
      | Some (bp, d, pos) \<Rightarrow> 0 < d \<and> chosen S byte visited (bp, d, pos))"

text \<open>What holds of the best pixel when the search ends.\<close>

definition scan_post ::
  "StegPixel list \<Rightarrow> byte \<Rightarrow> (StegPixel \<times> Pointer) list \<Rightarrow> best \<Rightarrow> bool" where
  "scan_post S byte visited b =
     (case b of None \<Rightarrow> visited = [] | Some bb \<Rightarrow> chosen S byte visited bb)"

subsection \<open>The chain of pixels\<close>

text \<open>
  A chain of pixel objects with their positions, in the order of the message: the pointer
  of each pixel resolves to the position of the next one.
\<close>

fun linked :: "crypto_lib \<Rightarrow> WordArray \<Rightarrow> nat \<Rightarrow> (StegPixel \<times> nat) list \<Rightarrow> bool" where
  "linked lib K n [] = True"
| "linked lib K n [x] = True"
| "linked lib K n ((e, q) # (e', q') # rest) =
     (next_pixel_idx lib K (pointer e) n = Some q' \<and> linked lib K n ((e', q') # rest))"

text \<open>
  The invariant of the loop over the bytes of the message: the state of the loop is the
  chain \<open>c\<close> built so far, whose positions are distinct and are the positions used.
\<close>

definition chain_inv ::
  "crypto_lib \<Rightarrow> WordArray \<Rightarrow> StegPixel list \<Rightarrow> (StegPixel \<times> nat) list
     \<Rightarrow> StegPixel list \<times> int \<times> int set \<Rightarrow> bool" where
  "chain_inv lib K S c st =
     (case st of (encodedPixels, currentPos, usedPositions) \<Rightarrow>
        c \<noteq> [] \<and> encodedPixels = rev (map fst c) \<and> currentPos = int (snd (hd c))
        \<and> usedPositions = int ` set (map snd c) \<and> distinct (map snd c)
        \<and> (\<forall>(e, q)\<in>set c. q < length S \<and> index e = index (S ! q) \<and> pixel_wf e)
        \<and> linked lib K (length S) c)"


section \<open>Word arrays and byte arrays are converted without loss\<close>

lemma mask8: "(0xff :: 32 word) = mask 8" by (simp add: mask_eq_exp_minus_1)

lemma byte_or:
  "(ucast (drop_bit s (w OR v) AND (0xff :: 32 word)) :: byte)
     = ucast (drop_bit s w AND 0xff) OR ucast (drop_bit s v AND 0xff)"
  by (rule bit_word_eqI) (auto simp: bit_simps)

lemma byte_push:
  assumes "sa = sc \<or> sa + 8 \<le> sc \<or> sc + 8 \<le> sa" "sc \<le> 24"
  shows "(ucast (drop_bit sa (push_bit sc (ucast (b :: byte) :: 32 word)) AND 0xff) :: byte)
     = (if sa = sc then b else 0)"
  using assms unfolding mask8
  by (intro bit_word_eqI) (auto simp: bit_simps dest: bit_imp_le_length)

lemma less_four: "(a::nat) < 4 \<Longrightarrow> a = 0 \<or> a = 1 \<or> a = 2 \<or> a = 3"
  by linarith

lemma shifts:
  fixes a c :: nat
  shows "a < 4 \<Longrightarrow> c < 4 \<Longrightarrow>
    24 - a * 8 = 24 - c * 8 \<or> 24 - a * 8 + 8 \<le> 24 - c * 8 \<or> 24 - c * 8 + 8 \<le> 24 - a * 8"
  by (drule less_four, drule less_four) (elim disjE; simp)

lemma shifts_eq:
  fixes a c :: nat
  shows "a < 4 \<Longrightarrow> c < 4 \<Longrightarrow> (24 - a * 8 = 24 - c * 8) = (a = c)"
  by (drule less_four, drule less_four) (elim disjE; simp)

lemma word_at_array_set:
  "j \<le> length ws \<Longrightarrow> word_at (array_set ws j v) j' = (if j' = j then v else word_at ws j')"
  by (auto simp: word_at_def array_set_def nth_append)

lemma length_array_set:
  "j \<le> length ws \<Longrightarrow> length (array_set ws j v) = (if j < length ws then length ws else Suc j)"
  by (auto simp: array_set_def)

lemma length_build:
  "k \<le> 4 * length (fold (wstep u8) [0..<k] []) \<and> 4 * length (fold (wstep u8) [0..<k] []) < k + 4"
proof (induction k)
  case 0
  show ?case by simp
next
  case (Suc k)
  define n where "n = length (fold (wstep u8) [0..<k] [])"
  have n: "k \<le> 4 * n" "4 * n < k + 4" using Suc by (simp_all add: n_def)
  have le: "k div 4 \<le> n" using n(1) by simp
  have len: "length (fold (wstep u8) [0..<Suc k] []) = (if k div 4 < n then n else Suc (k div 4))"
    using le by (simp add: wstep_def length_array_set n_def)
  show ?case
  proof (cases "k div 4 < n")
    case True
    then have "k < 4 * n" by simp
    then show ?thesis unfolding len using True n by simp
  next
    case False
    then have "k div 4 = n" using le by simp
    moreover from False have "4 * n \<le> k" by simp
    ultimately show ?thesis unfolding len using n by simp
  qed
qed

lemma byte_build: "byte_of (fold (wstep u8) [0..<k] []) i = (if i < k then u8 ! i else 0)"
proof (induction k arbitrary: i)
  case 0
  show ?case by (simp add: byte_of_def word_at_def)
next
  case (Suc k)
  define W where "W = fold (wstep u8) [0..<k] []"
  have "k \<le> 4 * length W" unfolding W_def using length_build by blast
  then have le: "k div 4 \<le> length W" by simp
  have step: "fold (wstep u8) [0..<Suc k] [] = wstep u8 k W" by (simp add: W_def)
  have IH: "\<And>j. byte_of W j = (if j < k then u8 ! j else 0)" unfolding W_def by (rule Suc)
  show ?case
  proof (cases "i div 4 = k div 4")
    case False
    then have "i \<noteq> k" by auto
    moreover have "byte_of (wstep u8 k W) i = byte_of W i"
      using False le by (simp add: byte_of_def wstep_def word_at_array_set)
    ultimately show ?thesis unfolding step IH by auto
  next
    case True
    have sh: "24 - (i mod 4) * 8 = 24 - (k mod 4) * 8 \<or> 24 - (i mod 4) * 8 + 8 \<le> 24 - (k mod 4) * 8
              \<or> 24 - (k mod 4) * 8 + 8 \<le> 24 - (i mod 4) * 8"
      by (rule shifts) simp_all
    have sh2: "24 - (k mod 4) * 8 \<le> 24" by simp
    have "(i mod 4 = k mod 4) = (i = k)"
      using True by (metis div_mult_mod_eq)
    then have eq: "(24 - (i mod 4) * 8 = 24 - (k mod 4) * 8) = (i = k)"
      by (simp add: shifts_eq)
    have "word_at (wstep u8 k W) (i div 4)
          = word_at W (i div 4) OR push_bit (24 - (k mod 4) * 8) (ucast (u8 ! k))"
      unfolding wstep_def word_at_array_set [OF le] True by simp
    then have "byte_of (wstep u8 k W) i
          = byte_of W i OR ucast (drop_bit (24 - (i mod 4) * 8)
               (push_bit (24 - (k mod 4) * 8) (ucast (u8 ! k) :: 32 word)) AND 0xff)"
      unfolding byte_of_def by (simp only: byte_or)
    also have "\<dots> = byte_of W i OR (if i = k then u8 ! k else 0)"
      unfolding byte_push [OF sh sh2] eq ..
    finally show ?thesis unfolding step IH by auto
  qed
qed

text \<open>
  C10: converting a byte array to a word array and back returns the byte array, element
  by element and in length.
\<close>

theorem uint8_wordArray_roundtrip: "wordArrayToUint8Array (uint8ArrayToWordArray u8) = u8"
proof -
  have "wordArrayToUint8Array (uint8ArrayToWordArray u8)
        = map (byte_of (fold (wstep u8) [0..<length u8] [])) [0..<length u8]"
    unfolding wordArrayToUint8Array_def uint8ArrayToWordArray_def byte_of_def [abs_def] wstep_def [abs_def]
    by simp
  also have "\<dots> = map (\<lambda>i. u8 ! i) [0..<length u8]"
    by (rule map_cong) (simp_all add: byte_build)
  also have "\<dots> = u8" by (rule map_nth)
  finally show ?thesis .
qed


theorem uint8_wordArray_roundtrip_witness:
  "wordArrayToUint8Array (uint8ArrayToWordArray [1, 2, 3, 4, 5, 255]) = [1, 2, 3, 4, 5, 255]"
  using uint8_wordArray_roundtrip [of "[1, 2, 3, 4, 5, 255]"] .

section \<open>Pointer resolution\<close>

lemma mask16: "(0xffff :: 32 word) = mask 16"
  by (simp add: mask_eq_exp_minus_1)

lemma first_16_bits_big_endian:
  "unat (drop_bit 16 (w :: 32 word) AND 0xffff)
     = u16_big_endian (ucast (drop_bit 24 w)) (ucast (drop_bit 16 w))"
proof -
  define m where "m = unat w div 65536"
  have b: "unat w < 4294967296" using unsigned_less [of w] by simp
  then have m: "m < 65536" unfolding m_def by arith
  have d: "unat w div 16777216 = m div 256" unfolding m_def by (simp add: div_mult2_eq)
  have 1: "unat (drop_bit 16 w AND mask 16) = m mod 65536"
    unfolding m_def
    by (simp add: unat_div unat_mod unsigned_take_bit_eq unat_drop_bit_eq take_bit_eq_mod
        drop_bit_eq_div flip: take_bit_eq_mask)
  have 2: "unat (ucast (drop_bit 24 w) :: byte) = (m div 256) mod 256"
    unfolding d [symmetric]
    by (simp add: unat_div unat_mod unsigned_ucast_eq unat_drop_bit_eq take_bit_eq_mod
        drop_bit_eq_div)
  have 3: "unat (ucast (drop_bit 16 w) :: byte) = m mod 256"
    unfolding m_def
    by (simp add: unat_div unat_mod unsigned_ucast_eq unat_drop_bit_eq take_bit_eq_mod
        drop_bit_eq_div)
  have 4: "m mod 65536 = 256 * ((m div 256) mod 256) + m mod 256"
    using m by simp
  show ?thesis
    unfolding mask16 u16_big_endian_def 1 2 3 by (rule 4)
qed

text \<open>
  C6: for a candidate set that is not empty, the pointer resolution returns the first
  two bytes of the tag, read as a big-endian 16-bit unsigned integer, modulo the size of
  the set: a position of the set.
\<close>

theorem next_pixel_idx_spec:
  assumes "0 < S_len"
  shows "next_pixel_idx lib K p S_len = Some (spec_next lib K p S_len)
         \<and> spec_next lib K p S_len < S_len"
  using assms
  by (simp add: next_pixel_idx_def spec_next_def Let_def first_16_bits_big_endian)

theorem next_pixel_idx_spec_witness:
  "(0::nat) < 5 \<and> next_pixel_idx toy_lib toy_key [0x12, 0x34] 5 = Some 0
   \<and> spec_next toy_lib toy_key [0x12, 0x34] 5 = 0"
proof -
  have v: "spec_next toy_lib toy_key [0x12, 0x34] 5 = 0"
    by (simp add: spec_next_def toy_lib_def word_at_def channel_at_def u16_big_endian_def)
  show ?thesis
    using next_pixel_idx_spec [of 5 toy_lib toy_key "[0x12, 0x34]"] by (simp add: v)
qed



section \<open>The engine leaves the alpha channel alone\<close>

subsection \<open>Positions found by index\<close>

lemma findIndex_ge: "- 1 \<le> findIndex P xs"
  by (induction xs) (auto simp: Let_def)

lemma findIndex_none: "(findIndex P xs = - 1) = (\<forall>x\<in>set xs. \<not> P x)"
proof (induction xs)
  case Nil
  show ?case by simp
next
  case (Cons x xs)
  have "- 1 \<le> findIndex P xs" by (rule findIndex_ge)
  then show ?case using Cons by (auto simp: Let_def)
qed

lemma findIndex_found:
  "findIndex P xs \<noteq> - 1 \<Longrightarrow>
     0 \<le> findIndex P xs \<and> nat (findIndex P xs) < length xs \<and> P (xs ! nat (findIndex P xs))"
proof (induction xs)
  case Nil
  then show ?case by simp
next
  case (Cons x xs)
  show ?case
  proof (cases "P x")
    case True
    then show ?thesis by simp
  next
    case False
    with Cons.prems have ne: "findIndex P xs \<noteq> - 1" by (auto simp: Let_def)
    from Cons.IH [OF ne] have ih: "0 \<le> findIndex P xs" "nat (findIndex P xs) < length xs"
      "P (xs ! nat (findIndex P xs))" by simp_all
    have "findIndex P (x # xs) = findIndex P xs + 1" using False ne by (simp add: Let_def)
    moreover have "nat (findIndex P xs + 1) = Suc (nat (findIndex P xs))" using ih(1) by simp
    ultimately show ?thesis using ih by simp
  qed
qed

lemma findIndex_distinct:
  "distinct (map f xs) \<Longrightarrow> i < length xs \<Longrightarrow> findIndex (\<lambda>p. f p = f (xs ! i)) xs = int i"
proof (induction xs arbitrary: i)
  case Nil
  then show ?case by simp
next
  case (Cons x xs)
  show ?case
  proof (cases i)
    case 0
    then show ?thesis by simp
  next
    case (Suc j)
    with Cons.prems have j: "j < length xs" and d: "distinct (map f xs)"
      and nx: "f x \<notin> f ` set xs" by simp_all
    have "f x \<noteq> f (xs ! j)" using nx j by (metis image_eqI nth_mem)
    moreover have "findIndex (\<lambda>p. f p = f (xs ! j)) xs = int j" by (rule Cons.IH [OF d j])
    ultimately show ?thesis using Suc by (simp add: Let_def)
  qed
qed

subsection \<open>Every pixel object keeps the alpha value of its pixel\<close>

lemma getPixelAt_alpha: "getPixelAt img idx = Inr px \<Longrightarrow> alpha_ok img px \<and> index px = idx"
  by (auto simp: getPixelAt_def new_StegPixel_def new_StegPointer_def POINTER_CHANNEL_COUNT_def
      alpha_ok_def Let_def split: if_splits)

lemma getPixels_alpha: "getPixels img idxs = Inr pxs \<Longrightarrow> \<forall>px\<in>set pxs. alpha_ok img px"
proof (induction idxs arbitrary: pxs)
  case Nil
  then show ?case by simp
next
  case (Cons idx rest)
  then show ?case by (auto split: sum.splits dest: getPixelAt_alpha)
qed

lemma setChannel_alpha: "alpha_ok img px \<Longrightarrow> alpha_ok img (setChannel px RED v)"
  by (simp add: alpha_ok_def setChannel_def Let_def)

lemma setPointer_alpha: "alpha_ok img px \<Longrightarrow> alpha_ok img (setPointer px p)"
  by (simp add: alpha_ok_def setPointer_def)

lemma new_StegPixel_alpha:
  "alpha_ok img original \<Longrightarrow> new_StegPixel (bytes original) (index original) = Inr fresh
     \<Longrightarrow> alpha_ok img fresh"
  by (auto simp: alpha_ok_def new_StegPixel_def Let_def split: sum.splits)

lemma try_pointers_alpha:
  "alpha_ok img original \<Longrightarrow> best_ok img best \<Longrightarrow>
   try_pointers original pos byte ptrs best = Inr r \<Longrightarrow>
   (case r of Break b \<Rightarrow> best_ok img b | Continue b \<Rightarrow> best_ok img b)"
proof (induction ptrs arbitrary: best)
  case Nil
  then show ?case by auto
next
  case (Cons p rest)
  show ?case
  proof (cases "bytes original ! RED = byte \<and> pointer original = p")
    case True
    with Cons.prems show ?thesis by (auto simp: best_ok_def)
  next
    case False
    from Cons.prems(3) False obtain fresh d where
      f: "new_StegPixel (bytes original) (index original) = Inr fresh" and
      s: "similarity original (setPointer (setChannel fresh RED byte) p) = Inr d"
      by (auto split: sum.splits simp: Let_def)
    have ok: "best_ok img (Some (setPointer (setChannel fresh RED byte) p, d, pos))"
      using new_StegPixel_alpha [OF Cons.prems(1) f]
      by (simp add: best_ok_def setChannel_alpha setPointer_alpha)
    from Cons.prems(3) False f s have
      "try_pointers original pos byte rest (Some (setPointer (setChannel fresh RED byte) p, d, pos)) = Inr r
       \<or> try_pointers original pos byte rest best = Inr r"
      by (auto simp: Let_def split: if_splits)
    then show ?thesis using Cons.IH [OF Cons.prems(1) ok] Cons.IH [OF Cons.prems(1) Cons.prems(2)]
      by blast
  qed
qed

lemma search_alpha:
  "\<forall>px\<in>set cands. alpha_ok img px \<Longrightarrow> best_ok img best \<Longrightarrow>
   search S used byte ptrs cands best = Inr b \<Longrightarrow> best_ok img b"
proof (induction cands arbitrary: best)
  case Nil
  then show ?case by simp
next
  case (Cons px rest)
  let ?pos = "findIndex (\<lambda>p. index p = index px) S"
  show ?case
  proof (cases "?pos = - 1 \<or> ?pos \<in> used")
    case True
    with Cons show ?thesis by (auto simp: Let_def)
  next
    case False
    with Cons.prems(3) obtain r where
      t: "try_pointers px ?pos byte ptrs best = Inr r" and
      r: "(case r of Break b' \<Rightarrow> b = b' | Continue b' \<Rightarrow> search S used byte ptrs rest b' = Inr b)"
      by (auto simp: Let_def split: sum.splits outcome.splits)
    have px: "alpha_ok img px" using Cons.prems(1) by simp
    from try_pointers_alpha [OF px Cons.prems(2) t] r Cons.IH Cons.prems(1)
    show ?thesis by (cases r) auto
  qed
qed


lemma set_candidatePixels: "set (candidatePixels S byte) \<subseteq> set S"
  by (auto simp: candidatePixels_def Let_def)

lemma encode_byte_alpha:
  assumes "\<forall>px\<in>set S. alpha_ok img px"
    and "encode_byte lib K S used currentPos byte = Inr (bestPixel, d, bestPos)"
  shows "alpha_ok img bestPixel"
proof -
  from assms(2) have s: "search S used byte (possiblePreviousPointers lib K (length S) currentPos)
      (candidatePixels S byte) None = Inr (Some (bestPixel, d, bestPos))"
    by (auto simp: encode_byte_def split: sum.splits option.splits)
  have c: "\<forall>px\<in>set (candidatePixels S byte). alpha_ok img px"
    using assms(1) set_candidatePixels by blast
  have "best_ok img (Some (bestPixel, d, bestPos))"
    by (rule search_alpha [OF c _ s]) (simp add: best_ok_def)
  then show ?thesis by (simp add: best_ok_def)
qed

lemma encode_chain_alpha:
  "\<forall>px\<in>set S. alpha_ok img px \<Longrightarrow> \<forall>px\<in>set (fst st). alpha_ok img px \<Longrightarrow>
   encode_chain lib K S bs st = Inr st' \<Longrightarrow> \<forall>px\<in>set (fst st'). alpha_ok img px"
proof (induction lib K S bs st rule: encode_chain.induct)
  case (1 lib K S st)
  then show ?case by simp
next
  case (2 lib K S byte rest encodedPixels currentPos usedPositions)
  from "2.prems"(3) obtain bestPixel d bestPos where
    b: "encode_byte lib K S usedPositions currentPos byte = Inr (bestPixel, d, bestPos)" and
    c: "encode_chain lib K S rest (encodedPixels @ [bestPixel], bestPos, insert bestPos usedPositions) = Inr st'"
    by (auto split: sum.splits)
  have "alpha_ok img bestPixel" by (rule encode_byte_alpha [OF "2.prems"(1) b])
  then have "\<forall>px\<in>set (fst (encodedPixels @ [bestPixel], bestPos, insert bestPos usedPositions)). alpha_ok img px"
    using "2.prems"(2) by simp
  from "2.IH" [OF b refl refl "2.prems"(1) this c] show ?case .
qed

lemma select_last_alpha:
  assumes "\<forall>px\<in>set S. alpha_ok img px"
    and "select_last S lastByte = Inr (S', cur, pos)"
  shows "(\<forall>px\<in>set S'. alpha_ok img px) \<and> alpha_ok img cur"
proof -
  let ?sorted = "sort_key (\<lambda>a. case lastByte of None \<Rightarrow> 0 | Some b \<Rightarrow> \<bar>uint (bytes a ! RED) - uint b\<bar>) S"
  from assms(2) obtain first rest where srt: "?sorted = first # rest"
    by (auto simp: select_last_def split: list.splits)
  have "first \<in> set ?sorted" unfolding srt by simp
  then have "first \<in> set S" by simp
  then have f: "alpha_ok img first" using assms(1) by blast
  have cur: "cur = setChannel first RED (case lastByte of None \<Rightarrow> 0 | Some b \<Rightarrow> b)"
    using assms(2) srt by (simp add: select_last_def Let_def)
  have c: "alpha_ok img cur" unfolding cur by (rule setChannel_alpha [OF f])
  have "S' = S \<or> (\<exists>n. S' = S[n := cur])"
    using assms(2) srt cur by (auto simp: select_last_def Let_def split: if_splits)
  then have "set S' \<subseteq> insert cur (set S)" using set_update_subset_insert by fastforce
  then show ?thesis using c assms(1) by auto
qed

lemma build_chain_alpha:
  assumes "build_chain lib K img idxs msg_e = Inr (encodedPixels, firstPos)"
  shows "\<forall>px\<in>set encodedPixels. alpha_ok img px"
proof -
  from assms obtain S0 S cur pos used where
    g: "getPixels img idxs = Inr S0" and
    l: "select_last S0 (if msg_e = [] then None else Some (last msg_e)) = Inr (S, cur, pos)" and
    c: "encode_chain lib K S (rev (butlast msg_e)) ([cur], pos, {pos}) = Inr (encodedPixels, firstPos, used)"
    by (auto simp: build_chain_def split: sum.splits)
  from select_last_alpha [OF getPixels_alpha [OF g] l]
  have S: "\<forall>px\<in>set S. alpha_ok img px" and cur: "alpha_ok img cur" by simp_all
  from encode_chain_alpha [OF S _ c] cur show ?thesis by simp
qed

lemma channel_at_update:
  "channel_at (xs[i := v]) j = (if i = j \<and> i < length xs then v else channel_at xs j)"
  by (auto simp: channel_at_def)

lemma same_alpha_refl: "same_alpha img img"
  by (simp add: same_alpha_def)

lemma same_alpha_trans: "same_alpha a b \<Longrightarrow> same_alpha b c \<Longrightarrow> same_alpha a c"
  by (simp add: same_alpha_def)

lemma alpha_ok_same: "same_alpha img img' \<Longrightarrow> alpha_ok img px \<Longrightarrow> alpha_ok img' px"
  by (simp add: same_alpha_def alpha_ok_def)

lemma setPixelAt_alpha:
  assumes "alpha_ok img px" and "setPixelAt img px = Inr img'"
  shows "same_alpha img img'"
proof -
  let ?c = "index px * 4"
  have img': "img' = img\<lparr>channels := (channels img)
      [?c + 0 := channel_at (bytes px) RED, ?c + 1 := channel_at (bytes px) GREEN,
       ?c + 2 := channel_at (bytes px) BLUE, ?c + 3 := channel_at (bytes px) ALPHA]\<rparr>"
    using assms(2) by (auto simp: setPixelAt_def Let_def split: if_splits)
  have a: "channel_at (bytes px) ALPHA = channel_at (channels img) (?c + 3)"
    using assms(1) by (simp add: alpha_ok_def channel_at_def)
  have ne: "\<And>i k. k < 3 \<Longrightarrow> ?c + k \<noteq> i * 4 + 3" by presburger
  have "\<And>i. channel_at (channels img') (i * 4 + 3) = channel_at (channels img) (i * 4 + 3)"
    unfolding img' using a ne [of 0] ne [of 1] ne [of 2]
    by (auto simp: channel_at_update)
  then show ?thesis unfolding same_alpha_def by (simp add: img')
qed

lemma write_pixels_alpha:
  "\<forall>px\<in>set pxs. alpha_ok img px \<Longrightarrow> write_pixels img pxs = (r, img') \<Longrightarrow> same_alpha img img'"
proof (induction pxs arbitrary: img)
  case Nil
  then show ?case by (simp add: same_alpha_refl)
next
  case (Cons px rest)
  show ?case
  proof (cases "setPixelAt img px")
    case (Inl e)
    with Cons.prems show ?thesis by (simp add: same_alpha_refl)
  next
    case (Inr img1)
    have "alpha_ok img px" using Cons.prems(1) by simp
    then have s1: "same_alpha img img1" using Inr by (rule setPixelAt_alpha)
    have "\<forall>p\<in>set rest. alpha_ok img1 p" using Cons.prems(1) alpha_ok_same [OF s1] by simp
    moreover have "write_pixels img1 rest = (r, img')" using Cons.prems(2) Inr by simp
    ultimately have "same_alpha img1 img'" by (rule Cons.IH)
    with s1 show ?thesis by (rule same_alpha_trans)
  qed
qed

lemma encode_cases:
  assumes "encode lib K img message t = Some (r, img')"
  shows "(r, img') = (Inl ImageNotInitialized, img)
       \<or> (width img * height img < length (aes_encrypt lib K message)
           \<and> (r, img') = (Inl (MessageTooLong (length (aes_encrypt lib K message)) (width img * height img)), img))
       \<or> (\<exists>idxs. encoder_indices lib K img (length (aes_encrypt lib K message)) t = Some idxs
            \<and> isReady img \<and> length (aes_encrypt lib K message) \<le> width img * height img
            \<and> ((\<exists>e. build_chain lib K img idxs (aes_encrypt lib K message) = Inl e
                     \<and> (r, img') = (Inl e, img))
               \<or> (\<exists>chain. build_chain lib K img idxs (aes_encrypt lib K message) = Inr chain
                     \<and> (r, img') = commit lib K img (length (aes_encrypt lib K message))
                          (fst (renegotiate t (length (aes_encrypt lib K message)))) chain)))"
proof (cases "isReady img")
  case False
  with assms show ?thesis by (simp add: encode_def)
next
  case ready: True
  show ?thesis
  proof (cases "width img * height img < length (aes_encrypt lib K message)")
    case True
    with assms ready show ?thesis by (auto simp: encode_def Let_def)
  next
    case False
    with assms ready obtain idxs where
      i: "encoder_indices lib K img (length (aes_encrypt lib K message)) t = Some idxs"
      by (auto simp: encode_def Let_def split: option.splits)
    with assms ready False have
      "(r, img') = (case build_chain lib K img idxs (aes_encrypt lib K message) of
          Inl e \<Rightarrow> (Inl e, img)
        | Inr chain \<Rightarrow> commit lib K img (length (aes_encrypt lib K message))
            (fst (renegotiate t (length (aes_encrypt lib K message)))) chain)"
      by (simp add: encode_def Let_def)
    with i ready False show ?thesis
      by (cases "build_chain lib K img idxs (aes_encrypt lib K message)") auto
  qed
qed

lemma commit_alpha:
  assumes "\<forall>px\<in>set (fst chain). alpha_ok img px" and "commit lib K img L a chain = (r, img')"
  shows "same_alpha img img'"
proof -
  obtain encodedPixels currentPos where c: "chain = (encodedPixels, currentPos)" by (cases chain)
  obtain eo img1 where w: "write_pixels img encodedPixels = (eo, img1)"
    by (cases "write_pixels img encodedPixels")
  have "img' = img1" using assms(2) c w by (cases eo) (simp_all add: commit_def)
  moreover have "same_alpha img img1" using assms(1) c w write_pixels_alpha by auto
  ultimately show ?thesis by simp
qed

text \<open>
  C7: whatever encode returns, the image it leaves has the size of the image it was
  given and, at every pixel index, the same alpha value.
\<close>

theorem encode_alpha_untouched:
  assumes "encode lib K img message t = Some (r, img')"
  shows "length (channels img') = length (channels img)
         \<and> (\<forall>i. channel_at (channels img') (i * 4 + ALPHA) = channel_at (channels img) (i * 4 + ALPHA))"
proof -
  have "same_alpha img img'"
    using encode_cases [OF assms]
  proof (elim disjE exE conjE)
    fix idxs chain
    assume b: "build_chain lib K img idxs (aes_encrypt lib K message) = Inr chain"
      and c: "(r, img') = commit lib K img (length (aes_encrypt lib K message))
                (fst (renegotiate t (length (aes_encrypt lib K message)))) chain"
    obtain encodedPixels currentPos where p: "chain = (encodedPixels, currentPos)" by (cases chain)
    have "\<forall>px\<in>set (fst chain). alpha_ok img px"
      using build_chain_alpha [OF b [unfolded p]] p by simp
    then show ?thesis using c [symmetric] by (rule commit_alpha)
  qed (simp_all add: same_alpha_refl)
  then show ?thesis by (simp add: same_alpha_def)
qed

section \<open>The capacity check\<close>

lemma getPixelAt_not_capacity: "getPixelAt img idx = Inl e \<Longrightarrow> \<not> capacity_error e"
  by (auto simp: getPixelAt_def new_StegPixel_def new_StegPointer_def Let_def capacity_error_def
      split: if_splits sum.splits)

lemma getPixels_not_capacity: "getPixels img idxs = Inl e \<Longrightarrow> \<not> capacity_error e"
  by (induction idxs) (auto split: sum.splits dest: getPixelAt_not_capacity)

lemma select_last_not_capacity: "select_last S lastByte = Inl e \<Longrightarrow> \<not> capacity_error e"
  by (auto simp: select_last_def Let_def capacity_error_def split: list.splits)

lemma new_StegPixel_not_capacity: "new_StegPixel bs idx = Inl e \<Longrightarrow> \<not> capacity_error e"
  by (auto simp: new_StegPixel_def new_StegPointer_def Let_def capacity_error_def
      split: if_splits sum.splits)

lemma similarity_not_capacity: "similarity a b = Inl e \<Longrightarrow> \<not> capacity_error e"
  by (auto simp: similarity_def capacity_error_def split: if_splits)

lemma try_pointers_not_capacity:
  "try_pointers original pos byte ptrs best = Inl e \<Longrightarrow> \<not> capacity_error e"
proof (induction ptrs arbitrary: best)
  case Nil
  then show ?case by simp
next
  case (Cons p rest)
  show ?case
  proof (cases "bytes original ! RED = byte \<and> pointer original = p")
    case True
    with Cons.prems show ?thesis by simp
  next
    case np: False
    show ?thesis
    proof (cases "new_StegPixel (bytes original) (index original)")
      case (Inl e')
      with Cons.prems np have "e = e'" by simp
      with Inl show ?thesis by (simp add: new_StegPixel_not_capacity)
    next
      case (Inr fresh)
      show ?thesis
      proof (cases "similarity original (setPointer (setChannel fresh RED byte) p)")
        case (Inl e')
        with Cons.prems np Inr have "e = e'" by (simp add: Let_def)
        with Inl show ?thesis by (simp add: similarity_not_capacity)
      next
        case d: (Inr d)
        from Cons.prems np Inr d have
          "try_pointers original pos byte rest (Some (setPointer (setChannel fresh RED byte) p, d, pos)) = Inl e
           \<or> try_pointers original pos byte rest best = Inl e"
          by (auto simp: Let_def split: if_splits)
        then show ?thesis using Cons.IH by blast
      qed
    qed
  qed
qed

lemma search_not_capacity:
  "search S used byte ptrs cands best = Inl e \<Longrightarrow> \<not> capacity_error e"
proof (induction cands arbitrary: best)
  case Nil
  then show ?case by simp
next
  case (Cons px rest)
  let ?pos = "findIndex (\<lambda>p. index p = index px) S"
  show ?case
  proof (cases "?pos = - 1 \<or> ?pos \<in> used")
    case True
    with Cons show ?thesis by (auto simp: Let_def)
  next
    case False
    show ?thesis
    proof (cases "try_pointers px ?pos byte ptrs best")
      case (Inl e')
      with Cons.prems False have "e = e'" by (simp add: Let_def)
      with Inl show ?thesis by (simp add: try_pointers_not_capacity)
    next
      case (Inr r)
      with Cons.prems False Cons.IH show ?thesis by (cases r) (auto simp: Let_def)
    qed
  qed
qed

lemma encode_byte_not_capacity:
  "encode_byte lib K S used currentPos byte = Inl e \<Longrightarrow> \<not> capacity_error e"
  by (auto simp: encode_byte_def capacity_error_def split: sum.splits option.splits
      dest: search_not_capacity)

lemma encode_chain_not_capacity:
  "encode_chain lib K S bs st = Inl e \<Longrightarrow> \<not> capacity_error e"
proof (induction lib K S bs st rule: encode_chain.induct)
  case (1 lib K S st)
  then show ?case by simp
next
  case (2 lib K S byte rest encodedPixels currentPos usedPositions)
  show ?case
  proof (cases "encode_byte lib K S usedPositions currentPos byte")
    case (Inl e')
    with "2.prems" have "e = e'" by simp
    with Inl show ?thesis by (simp add: encode_byte_not_capacity)
  next
    case (Inr b)
    obtain bestPixel d bestPos where b: "b = (bestPixel, d, bestPos)" by (cases b)
    from "2.prems" Inr b have
      "encode_chain lib K S rest (encodedPixels @ [bestPixel], bestPos, insert bestPos usedPositions) = Inl e"
      by simp
    with "2.IH" [OF Inr [unfolded b] refl refl] show ?thesis .
  qed
qed

lemma build_chain_not_capacity:
  "build_chain lib K img idxs msg_e = Inl e \<Longrightarrow> \<not> capacity_error e"
  by (auto simp: build_chain_def split: sum.splits
      dest: getPixels_not_capacity select_last_not_capacity encode_chain_not_capacity)

lemma write_pixels_not_capacity:
  "write_pixels img pxs = (Some e, img') \<Longrightarrow> \<not> capacity_error e"
  by (induction pxs arbitrary: img)
    (auto simp: setPixelAt_def Let_def capacity_error_def split: sum.splits if_splits)

lemma commit_not_capacity: "commit lib K img L a chain = (Inl e, img') \<Longrightarrow> \<not> capacity_error e"
proof -
  assume c: "commit lib K img L a chain = (Inl e, img')"
  obtain encodedPixels currentPos where p: "chain = (encodedPixels, currentPos)" by (cases chain)
  obtain eo img1 where w: "write_pixels img encodedPixels = (eo, img1)"
    by (cases "write_pixels img encodedPixels")
  from c p w have "eo = Some e" by (cases eo) (simp_all add: commit_def)
  with w show ?thesis using write_pixels_not_capacity by blast
qed

text \<open>
  C8: on a loaded image, encode fails with the capacity error exactly when the
  ciphertext is longer than the number of pixels: then it returns that error and the
  image unchanged, and with a ciphertext that fits it never returns that error.
\<close>

theorem encode_capacity_check:
  assumes "isReady img"
  shows "(width img * height img < length (aes_encrypt lib K message) \<longrightarrow>
            encode lib K img message t
              = Some (Inl (MessageTooLong (length (aes_encrypt lib K message))
                             (width img * height img)), img))
       \<and> (length (aes_encrypt lib K message) \<le> width img * height img \<longrightarrow>
            (\<forall>a b img'. encode lib K img message t \<noteq> Some (Inl (MessageTooLong a b), img')))"
proof (intro conjI impI allI)
  assume "width img * height img < length (aes_encrypt lib K message)"
  then show "encode lib K img message t
      = Some (Inl (MessageTooLong (length (aes_encrypt lib K message)) (width img * height img)), img)"
    using assms by (simp add: encode_def Let_def)
next
  fix a b img'
  assume le: "length (aes_encrypt lib K message) \<le> width img * height img"
  show "encode lib K img message t \<noteq> Some (Inl (MessageTooLong a b), img')"
  proof
    assume e: "encode lib K img message t = Some (Inl (MessageTooLong a b), img')"
    have c: "capacity_error (MessageTooLong a b)" by (simp add: capacity_error_def)
    from encode_cases [OF e] show False
    proof (elim disjE exE conjE)
      assume "width img * height img < length (aes_encrypt lib K message)"
      with le show False by simp
    next
      fix idxs e'
      assume "build_chain lib K img idxs (aes_encrypt lib K message) = Inl e'"
        and "(Inl (MessageTooLong a b), img') = (Inl e', img)"
      with build_chain_not_capacity c show False by auto
    next
      fix idxs chain
      assume "(Inl (MessageTooLong a b), img') = commit lib K img (length (aes_encrypt lib K message))
                (fst (renegotiate t (length (aes_encrypt lib K message)))) chain"
      with commit_not_capacity [OF sym] c show False by blast
    qed simp
  qed
qed


section \<open>A run of encode on the small instance\<close>


lemma try_pointers_perfect:
  assumes "length (bytes original) = 4" "bytes original ! RED = byte" "pointer original \<in> set ptrs"
  shows "try_pointers original pos byte ptrs best = Inr (Break (Some (original, 0, pos)))"
  using assms(3)
proof (induction ptrs arbitrary: best)
  case Nil
  then show ?case by simp
next
  case (Cons p rest)
  show ?case
  proof (cases "pointer original = p")
    case True
    then show ?thesis using assms(2) by simp
  next
    case False
    with Cons.prems have m: "pointer original \<in> set rest" by simp
    obtain fresh where f: "new_StegPixel (bytes original) (index original) = Inr fresh"
      and lf: "length (bytes fresh) = 4"
      using assms(1)
      by (simp add: new_StegPixel_def new_StegPointer_def POINTER_CHANNEL_COUNT_def Let_def)
    obtain d where d: "similarity original (setPointer (setChannel fresh RED byte) p) = Inr d"
      using assms(1) lf by (simp add: similarity_def setPointer_def setChannel_def Let_def)
    show ?thesis
      using False f d Cons.IH [OF m] by (simp add: Let_def)
  qed
qed

lemma in_map_upt: "k < n \<Longrightarrow> f k \<in> set (map f [0..<n])"
  by simp

lemma allPointers_member:
  "n < DEFAULT_TOTAL_POINTERS \<Longrightarrow>
     [of_nat ((n div 256) mod 256), of_nat (n mod 256)] \<in> set allPointers"
  unfolding allPointers_def
  by (rule in_map_upt [where f = "\<lambda>p. [of_nat ((p div 256) mod 256), of_nat (p mod 256)]"])

lemma toy_pointer_valid:
  "[0, 5] \<in> set (possiblePreviousPointers toy_lib toy_key 4 1)"
proof -
  have "(5::nat) < DEFAULT_TOTAL_POINTERS"
    by (simp add: DEFAULT_TOTAL_POINTERS_def POINTER_CHANNEL_COUNT_def)
  from allPointers_member [OF this] have "[0, 5 :: byte] \<in> set allPointers" by simp
  moreover have "next_pixel_idx toy_lib toy_key [0, 5] 4 = Some 1"
    by (simp add: next_pixel_idx_def toy_lib_def word_at_def channel_at_def)
  ultimately show ?thesis by (simp add: possiblePreviousPointers_def)
qed

lemma toy_aes: "aes_encrypt toy_lib toy_key ''AC'' = [65, 67]"
  unfolding toy_lib_def by code_simp

lemma toy_renegotiate: "renegotiate 32 2 = (32, Num 2048)"
  by (simp add: renegotiate_def floor_div_def num_lt_def DEFAULT_TOTAL_POINTERS_def
      POINTER_CHANNEL_COUNT_def)

lemma toy_select: "select_indices (\<lambda>k. k mod 4) (Num 4) 0 [] = Some [0, 1, 2, 3]"
  by code_simp

lemma toy_indices: "encoder_indices toy_lib toy_key toy_image 2 32 = Some [0, 1, 2, 3]"
  by (simp add: encoder_indices_def toy_renegotiate js_min_def toy_image_def toy_lib_def toy_select)

lemma toy_pixels:
  "getPixels toy_image [0, 1, 2, 3]
     = Inr [toy_px 0 [65, 0, 5, 255], toy_px 1 [66, 9, 9, 255], toy_px 2 [30, 0, 2, 255], toy_px 3 [40, 0, 3, 255]]"
  unfolding toy_px_def toy_image_def by code_simp

lemma toy_last:
  "select_last [toy_px 0 [65, 0, 5, 255], toy_px 1 [66, 9, 9, 255], toy_px 2 [30, 0, 2, 255], toy_px 3 [40, 0, 3, 255]] (Some 67)
     = Inr ([toy_px 0 [65, 0, 5, 255], (toy_px 1 [66, 9, 9, 255])\<lparr>bytes := [67, 9, 9, 255]\<rparr>, toy_px 2 [30, 0, 2, 255], toy_px 3 [40, 0, 3, 255]],
            (toy_px 1 [66, 9, 9, 255])\<lparr>bytes := [67, 9, 9, 255]\<rparr>, 1)"
  unfolding toy_px_def by code_simp


lemma toy_candidates:
  "candidatePixels toy_S 65 = toy_px 0 [65, 0, 5, 255] # [(toy_px 1 [66, 9, 9, 255])\<lparr>bytes := [67, 9, 9, 255]\<rparr>, toy_px 3 [40, 0, 3, 255], toy_px 2 [30, 0, 2, 255]]"
  unfolding toy_px_def toy_S_def by code_simp

lemma toy_pos: "findIndex (\<lambda>p. index p = index (toy_px 0 [65, 0, 5, 255])) toy_S = 0"
  unfolding toy_px_def toy_S_def by code_simp

lemma toy_byte:
  "encode_byte toy_lib toy_key toy_S {1} 1 65 = Inr (toy_px 0 [65, 0, 5, 255], 0, 0)"
proof -
  have l: "length toy_S = 4" by (simp add: toy_S_def)
  have "try_pointers (toy_px 0 [65, 0, 5, 255]) 0 65 (possiblePreviousPointers toy_lib toy_key 4 1) None
      = Inr (Break (Some (toy_px 0 [65, 0, 5, 255], 0, 0)))"
    by (rule try_pointers_perfect) (simp_all add: toy_px_def toy_pointer_valid)
  then show ?thesis
    by (simp add: encode_byte_def toy_candidates toy_pos l)
qed

lemma toy_chain:
  "build_chain toy_lib toy_key toy_image [0, 1, 2, 3] [65, 67]
     = Inr ([(toy_px 1 [66, 9, 9, 255])\<lparr>bytes := [67, 9, 9, 255]\<rparr>, toy_px 0 [65, 0, 5, 255]], 0)"
proof -
  have lb: "(if [65, 67 :: byte] = [] then None else Some (last [65, 67])) = Some 67" by simp
  have rb: "rev (butlast [65, 67 :: byte]) = [65]" by simp
  show ?thesis
    by (simp only: build_chain_def toy_pixels sum.case lb toy_last prod.case rb
        encode_chain.simps toy_byte [unfolded toy_S_def] append.simps)
qed

lemma toy_commit:
  "commit toy_lib toy_key toy_image 2 32
     ([(toy_px 1 [66, 9, 9, 255])\<lparr>bytes := [67, 9, 9, 255]\<rparr>, toy_px 0 [65, 0, 5, 255]], 0)
   = (Inr (replicate 64 (CHR ''0'') @ ''002000020''),
      toy_image\<lparr>channels := [65, 0, 5, 255,  67, 9, 9, 255,  30, 0, 2, 255,  40, 0, 3, 255]\<rparr>)"
  unfolding toy_px_def toy_lib_def toy_image_def toy_key_def by code_simp

lemma toy_encode:
  "encode toy_lib toy_key toy_image ''AC'' 32
   = Some (Inr (replicate 64 (CHR ''0'') @ ''002000020''),
      toy_image\<lparr>channels := [65, 0, 5, 255,  67, 9, 9, 255,  30, 0, 2, 255,  40, 0, 3, 255]\<rparr>)"
proof -
  have r: "isReady toy_image" "width toy_image * height toy_image = 4"
    by (simp_all add: toy_image_def)
  have len: "length [65, 67 :: byte] = 2" by simp
  have lt: "\<not> (2 :: nat) > 4" by simp
  show ?thesis
    by (simp only: encode_def r Let_def toy_aes len lt toy_indices toy_chain toy_renegotiate
        fst_conv toy_commit not_True_eq_False if_False option.case sum.case)
qed


section \<open>The candidate set of decode\<close>



lemma js_lt_mono: "m \<le> n \<Longrightarrow> js_lt n t \<Longrightarrow> js_lt m t"
  by (cases t) (simp_all add: js_lt_def)

lemma distinct_below_length:
  assumes "distinct xs" "set xs \<subseteq> {..<n}"
  shows "length xs \<le> (n::nat)"
proof -
  have "card (set xs) \<le> card {..<n}" by (rule card_mono) (use assms in simp_all)
  then show ?thesis using assms(1) by (simp add: distinct_card)
qed

lemma select_indices_never_returns:
  assumes r: "\<forall>k. random k < n" and t: "js_lt n target"
    and d0: "distinct acc0" and s0: "set acc0 \<subseteq> {..<n}"
  shows "select_indices random target k0 acc0 = None"
proof (cases "select_indices random target k0 acc0")
  case None
  then show ?thesis .
next
  case (Some y0)
  let ?P = "\<lambda>rnd tg (k::nat) acc (y::nat list).
      rnd = random \<longrightarrow> tg = target \<longrightarrow> distinct acc \<longrightarrow> set acc \<subseteq> {..<n} \<longrightarrow> False"
  have "?P random target k0 acc0 y0"
  proof (rule select_indices.raw_induct [where P = ?P, OF _ Some])
    fix f :: "(nat \<Rightarrow> nat) \<Rightarrow> jsnum \<Rightarrow> nat \<Rightarrow> nat list \<Rightarrow> nat list option"
    fix rnd tg k acc y
    assume IH: "\<And>rnd tg k acc y. f rnd tg k acc = Some y \<Longrightarrow> ?P rnd tg k acc y"
      and eq: "(if js_lt (length acc) tg
                then f rnd tg (Suc k) (if rnd k \<in> set acc then acc else acc @ [rnd k])
                else Some acc) = Some y"
    show "?P rnd tg k acc y"
    proof (intro impI)
      assume e: "rnd = random" "tg = target" and d: "distinct acc" and s: "set acc \<subseteq> {..<n}"
      have "length acc \<le> n" using d s by (rule distinct_below_length)
      then have lt: "js_lt (length acc) tg" using t e(2) js_lt_mono by blast
      let ?acc = "if rnd k \<in> set acc then acc else acc @ [rnd k]"
      have "f rnd tg (Suc k) ?acc = Some y" using eq lt by simp
      moreover have "distinct ?acc" using d by simp
      moreover have "set ?acc \<subseteq> {..<n}" using s r e(1) by simp
      ultimately show False using IH e by blast
    qed
  qed
  then show ?thesis using d0 s0 by simp
qed

lemma toy_decoder_indices:
  "decoder_indices toy_lib toy_image
     \<lparr>key = toy_key, firstPixelIndex = Num 0, aliasCount = Num 32, msgLength = Num 2\<rparr> = None"
proof -
  have "select_indices (\<lambda>k. k mod 4) (Num 2048) 0 [] = None"
    by (rule select_indices_never_returns [where n = 4]) (simp_all add: js_lt_def)
  moreover have "floor_div DEFAULT_TOTAL_POINTERS (Num 32) = Num 2048"
    by (simp add: floor_div_def DEFAULT_TOTAL_POINTERS_def POINTER_CHANNEL_COUNT_def)
  ultimately show ?thesis
    by (simp add: decoder_indices_def toy_lib_def toy_image_def)
qed

text \<open>
  C2, at a 2 by 2 image and the default alias count 32: encode selects the four pixel
  indices, decode asks for 2048 distinct indices of a four-pixel image and its selection
  loop never ends.
\<close>

theorem candidate_sets_disagree:
  "encoder_indices toy_lib toy_key toy_image 2 32 = Some [0, 1, 2, 3]
   \<and> decoder_indices toy_lib toy_image
        \<lparr>key = toy_key, firstPixelIndex = Num 0, aliasCount = Num 32, msgLength = Num 2\<rparr> = None"
  using toy_indices toy_decoder_indices by simp

section \<open>Examples of the theorems on the small instance\<close>

theorem encode_alpha_untouched_witness:
  "encode toy_lib toy_key toy_image ''AC'' 32
     = Some (Inr (replicate 64 (CHR ''0'') @ ''002000020''),
             toy_image\<lparr>channels := [65, 0, 5, 255,  67, 9, 9, 255,  30, 0, 2, 255,  40, 0, 3, 255]\<rparr>)
   \<and> length (channels (toy_image\<lparr>channels := [65, 0, 5, 255,  67, 9, 9, 255,  30, 0, 2, 255,  40, 0, 3, 255]\<rparr>))
       = length (channels toy_image)
   \<and> channel_at (channels (toy_image\<lparr>channels := [65, 0, 5, 255,  67, 9, 9, 255,  30, 0, 2, 255,  40, 0, 3, 255]\<rparr>)) (1 * 4 + ALPHA)
       = channel_at (channels toy_image) (1 * 4 + ALPHA)"
proof (intro conjI)
  show "encode toy_lib toy_key toy_image ''AC'' 32
     = Some (Inr (replicate 64 (CHR ''0'') @ ''002000020''),
             toy_image\<lparr>channels := [65, 0, 5, 255,  67, 9, 9, 255,  30, 0, 2, 255,  40, 0, 3, 255]\<rparr>)"
    by (rule toy_encode)
  show "length (channels (toy_image\<lparr>channels := [65, 0, 5, 255,  67, 9, 9, 255,  30, 0, 2, 255,  40, 0, 3, 255]\<rparr>))
       = length (channels toy_image)"
    by (rule encode_alpha_untouched [OF toy_encode, THEN conjunct1])
  show "channel_at (channels (toy_image\<lparr>channels := [65, 0, 5, 255,  67, 9, 9, 255,  30, 0, 2, 255,  40, 0, 3, 255]\<rparr>)) (1 * 4 + ALPHA)
       = channel_at (channels toy_image) (1 * 4 + ALPHA)"
    by (rule encode_alpha_untouched [OF toy_encode, THEN conjunct2, THEN spec])
qed

lemma toy_aes_long: "aes_encrypt toy_lib toy_key ''ABCDE'' = [65, 66, 67, 68, 69]"
  unfolding toy_lib_def by code_simp

theorem encode_capacity_check_witness:
  "isReady toy_image
   \<and> width toy_image * height toy_image < length (aes_encrypt toy_lib toy_key ''ABCDE'')
   \<and> encode toy_lib toy_key toy_image ''ABCDE'' 32 = Some (Inl (MessageTooLong 5 4), toy_image)
   \<and> length (aes_encrypt toy_lib toy_key ''AC'') \<le> width toy_image * height toy_image
   \<and> encode toy_lib toy_key toy_image ''AC'' 32 \<noteq> Some (Inl (MessageTooLong 2 4), toy_image)"
proof -
  have r: "isReady toy_image" by (simp add: toy_image_def)
  have n: "width toy_image * height toy_image = 4" by (simp add: toy_image_def)
  have long: "width toy_image * height toy_image < length (aes_encrypt toy_lib toy_key ''ABCDE'')"
    by (simp add: n toy_aes_long)
  have short: "length (aes_encrypt toy_lib toy_key ''AC'') \<le> width toy_image * height toy_image"
    by (simp add: n toy_aes)
  from encode_capacity_check [OF r, of toy_lib toy_key "''ABCDE''" 32] long
  have 1: "encode toy_lib toy_key toy_image ''ABCDE'' 32 = Some (Inl (MessageTooLong 5 4), toy_image)"
    by (simp add: n toy_aes_long)
  from encode_capacity_check [OF r, of toy_lib toy_key "''AC''" 32] short
  have 2: "encode toy_lib toy_key toy_image ''AC'' 32 \<noteq> Some (Inl (MessageTooLong 2 4), toy_image)"
    by blast
  from r long 1 short 2 show ?thesis by blast
qed


section \<open>The serialised key\<close>

lemma hex_digit_hex_char: "d < 16 \<Longrightarrow> hex_digit (hex_char d) = Some d"
  by (auto simp: hex_digit_def hex_char_def Let_def)

lemma hex_digit_not_ws: "hex_digit c \<noteq> None \<Longrightarrow> \<not> is_ws c"
  by (auto simp: hex_digit_def is_ws_def Let_def split: if_splits)

lemma hex_digit_zero: "hex_digit (CHR ''0'') = Some 0"
  by (simp add: hex_digit_def)

lemma hex_digit_special:
  "hex_digit (CHR ''-'') = None" "hex_digit (CHR ''+'') = None"
  "hex_digit (CHR ''x'') = None" "hex_digit (CHR ''X'') = None"
  by (simp_all add: hex_digit_def)

lemma hex_value_append:
  "hex_value (xs @ [c]) = 16 * hex_value xs + (case hex_digit c of Some d \<Rightarrow> d | None \<Rightarrow> 0)"
  by (simp add: hex_value_def)

lemma hex_value_hex_of_nat: "hex_value (hex_of_nat n) = n"
proof (induction n rule: hex_of_nat.induct)
  case (1 n)
  show ?case
  proof (cases "n < 16")
    case True
    then show ?thesis
      by (subst hex_of_nat.simps) (simp add: hex_value_def hex_digit_hex_char)
  next
    case False
    have "hex_value (hex_of_nat n) = 16 * hex_value (hex_of_nat (n div 16)) + n mod 16"
      using False by (subst hex_of_nat.simps) (simp add: hex_value_append hex_digit_hex_char)
    then show ?thesis using "1.IH" [OF False] by simp
  qed
qed

lemma hex_of_nat_digits: "c \<in> set (hex_of_nat n) \<Longrightarrow> hex_digit c \<noteq> None"
proof (induction n rule: hex_of_nat.induct)
  case (1 n)
  show ?case
  proof (cases "n < 16")
    case True
    with "1.prems" show ?thesis
      by (subst (asm) hex_of_nat.simps) (simp add: hex_digit_hex_char)
  next
    case False
    with "1.prems" have "c \<in> set (hex_of_nat (n div 16)) \<or> c = hex_char (n mod 16)"
      by (subst (asm) hex_of_nat.simps) auto
    then show ?thesis using "1.IH" [OF False] by (auto simp: hex_digit_hex_char)
  qed
qed

lemma hex_of_nat_nonempty: "hex_of_nat n \<noteq> []"
  by (subst hex_of_nat.simps) simp

lemma hex_of_nat_length: "n < 16 ^ Suc k \<Longrightarrow> length (hex_of_nat n) \<le> Suc k"
proof (induction k arbitrary: n)
  case 0
  then show ?case by (subst hex_of_nat.simps) simp
next
  case (Suc k)
  show ?case
  proof (cases "n < 16")
    case True
    then show ?thesis by (subst hex_of_nat.simps) simp
  next
    case False
    have "n div 16 < 16 ^ Suc k" using Suc.prems by (simp add: less_mult_imp_div_less)
    from Suc.IH [OF this] show ?thesis using False by (subst hex_of_nat.simps) simp
  qed
qed

lemma hex_value_zeros: "hex_value (replicate k (CHR ''0'') @ s) = hex_value s"
proof -
  have "foldl (\<lambda>a c. 16 * a + (case hex_digit c of Some d \<Rightarrow> d | None \<Rightarrow> 0)) 0
          (replicate k (CHR ''0'')) = 0"
    by (induction k) (simp_all add: hex_digit_zero)
  then show ?thesis by (simp add: hex_value_def)
qed

text \<open>Below \<open>2\<^sup>5\<^sup>3\<close> every integer is a double.\<close>

lemma bit_length_le: "m < 2 ^ k \<Longrightarrow> bit_length m \<le> k"
proof (induction k arbitrary: m)
  case 0
  then show ?case by (simp add: bit_length.simps)
next
  case (Suc k)
  show ?case
  proof (cases "m = 0")
    case True
    then show ?thesis by (simp add: bit_length.simps)
  next
    case False
    have "m div 2 < 2 ^ k" using Suc.prems by simp
    from Suc.IH [OF this] show ?thesis using False by (subst bit_length.simps) simp
  qed
qed

lemma to_double_small:
  assumes "m < 2 ^ 53"
  shows "to_double neg m
         = (if m = 0 \<and> neg then NegZero else Num (if neg then - int m else int m))"
proof (cases "m = 0")
  case True
  then show ?thesis by (simp add: to_double_def)
next
  case False
  have e: "bit_length m - 53 = 0" using bit_length_le [OF assms] by simp
  have "m < 2 ^ 1024"
  proof -
    have "(2::nat) ^ 53 \<le> 2 ^ 1024" by (rule power_increasing) simp_all
    with assms show ?thesis by simp
  qed
  then show ?thesis using False by (simp add: to_double_def e Let_def)
qed

lemma bit_length_eq: "2 ^ k \<le> m \<Longrightarrow> m < 2 ^ Suc k \<Longrightarrow> bit_length m = Suc k"
proof (induction k arbitrary: m)
  case 0
  then have "m = 1" by simp
  then show ?case by (simp add: bit_length.simps)
next
  case (Suc k)
  have "2 ^ k \<le> m div 2" "m div 2 < 2 ^ Suc k" using Suc.prems by simp_all
  from Suc.IH [OF this] have "bit_length (m div 2) = Suc k" .
  moreover have "0 < (2::nat) ^ Suc k" by simp
  then have "m \<noteq> 0" using Suc.prems(1) by linarith
  ultimately show ?case by (subst bit_length.simps) simp
qed

text \<open>Above \<open>2\<^sup>5\<^sup>3\<close> not every integer is a double: the value is rounded to the nearest one.\<close>

lemma to_double_rounds:
  "to_double False 9007199254740993 = Num 9007199254740992"
  "to_double True 9007199254740995 = Num (- 9007199254740996)"
proof -
  have b: "bit_length 9007199254740993 = 54" "bit_length 9007199254740995 = 54"
    using bit_length_eq [of 53 9007199254740993] bit_length_eq [of 53 9007199254740995]
    by simp_all
  show "to_double False 9007199254740993 = Num 9007199254740992"
    by (simp add: to_double_def b Let_def)
  show "to_double True 9007199254740995 = Num (- 9007199254740996)"
    by (simp add: to_double_def b Let_def)
qed

lemma parseInt16_hex:
  assumes "s \<noteq> []" and "\<forall>c\<in>set s. hex_digit c \<noteq> None" and "hex_value s < 2 ^ 53"
  shows "parseInt16 s = Num (int (hex_value s))"
proof -
  obtain c r where s: "s = c # r" using assms(1) by (cases s) auto
  have c: "hex_digit c \<noteq> None" using assms(2) s by simp
  then have nws: "\<not> is_ws c" by (rule hex_digit_not_ws)
  have nsign: "c \<noteq> CHR ''-''" "c \<noteq> CHR ''+''" using c hex_digit_special by auto
  have s3: "(case s of a # b # r' \<Rightarrow>
              if a = CHR ''0'' \<and> (b = CHR ''x'' \<or> b = CHR ''X'') then r' else s | _ \<Rightarrow> s) = s"
  proof (cases r)
    case Nil
    then show ?thesis using s by simp
  next
    case (Cons b r')
    then have "hex_digit b \<noteq> None" using assms(2) s by simp
    then have "b \<noteq> CHR ''x''" "b \<noteq> CHR ''X''" using hex_digit_special by auto
    then show ?thesis using s Cons by simp
  qed
  have tw: "takeWhile (\<lambda>c. hex_digit c \<noteq> None) s = s"
    using assms(2) by (simp add: takeWhile_eq_all_conv)
  have e1: "dropWhile is_ws s = s" using s nws by simp
  have e0: "(case s of c # _ \<Rightarrow> c = CHR ''-'' | [] \<Rightarrow> False) = False" using s nsign by simp
  have e2: "(case s of c # r \<Rightarrow> if c = CHR ''-'' \<or> c = CHR ''+'' then r else s | [] \<Rightarrow> s) = s"
    using s nsign by simp
  show ?thesis
    unfolding parseInt16_def Let_def e1 e0 e2 s3 tw using assms(1)
    by (simp add: to_double_small [OF assms(3)])
qed

lemma trim_id:
  assumes "s \<noteq> []" "\<not> is_ws (hd s)" "\<not> is_ws (last s)"
  shows "trim s = s"
proof -
  have 1: "dropWhile is_ws s = s" using assms(1,2) by (simp add: dropWhile_eq_self_iff)
  have "hd (rev s) = last s" using assms(1) by (simp add: hd_rev)
  then have 2: "dropWhile is_ws (rev s) = rev s" using assms(1,3) by (simp add: dropWhile_eq_self_iff)
  show ?thesis by (simp add: trim_def 1 2)
qed

lemma padded_field:
  assumes "n < 65536"
  shows "length (padStart 4 (hex_of_nat n)) = 4"
    and "parseInt16 (padStart 4 (hex_of_nat n)) = Num (int n)"
proof -
  have "n < 16 ^ Suc 3" using assms by simp
  then have l: "length (hex_of_nat n) \<le> 4" using hex_of_nat_length [of n 3] by simp
  then show "length (padStart 4 (hex_of_nat n)) = 4" by (simp add: padStart_def)
  have ne: "padStart 4 (hex_of_nat n) \<noteq> []" by (simp add: padStart_def hex_of_nat_nonempty)
  have d: "\<forall>c\<in>set (padStart 4 (hex_of_nat n)). hex_digit c \<noteq> None"
    using hex_of_nat_digits by (auto simp: padStart_def hex_digit_zero)
  have v: "hex_value (padStart 4 (hex_of_nat n)) = n"
    by (simp add: padStart_def hex_value_zeros hex_value_hex_of_nat)
  have "hex_value (padStart 4 (hex_of_nat n)) < 2 ^ 53" unfolding v using assms by simp
  from parseInt16_hex [OF ne d this]
  show "parseInt16 (padStart 4 (hex_of_nat n)) = Num (int n)" by (simp only: v)
qed

lemma first_field:
  "n < 2 ^ 53 \<Longrightarrow> parseInt16 (hex_of_nat n) = Num (int n)"
  using parseInt16_hex [of "hex_of_nat n"] hex_of_nat_digits hex_of_nat_nonempty
  by (simp add: hex_value_hex_of_nat)

text \<open>
  For an alias count and a message length below \<open>65536\<close>, which fill four hexadecimal
  digits at most, a first position below \<open>2\<^sup>5\<^sup>3\<close>, and a key that prints as 64
  hexadecimal digits which \<open>Hex.parse\<close> reads back, the packaged key is unpacked to the
  values it was made from.
\<close>

lemma key_roundtrip_u16:
  assumes len: "length (toString lib K) = 64"
    and hex: "\<forall>c\<in>set (toString lib K). hex_digit c \<noteq> None"
    and parse: "Hex_parse lib (toString lib K) = K"
    and t: "t < 65536" and L: "L < 65536" and p53: "pos0 < 2 ^ 53"
  shows "unpackageKey lib
           (packageKey lib \<lparr>key = K, firstPixelIndex = Num (int pos0),
                            aliasCount = Num (int t), msgLength = Num (int L)\<rparr>)
         = Inr \<lparr>key = K, firstPixelIndex = Num (int pos0),
                aliasCount = Num (int t), msgLength = Num (int L)\<rparr>"
proof -
  let ?k = "toString lib K" and ?a = "padStart 4 (hex_of_nat t)"
  let ?l = "padStart 4 (hex_of_nat L)" and ?p = "hex_of_nat pos0"
  let ?s = "?k @ ?a @ ?l @ ?p"
  have s: "packageKey lib \<lparr>key = K, firstPixelIndex = Num (int pos0),
                            aliasCount = Num (int t), msgLength = Num (int L)\<rparr> = ?s"
    by (simp add: packageKey_def toString16_def)
  have la: "length ?a = 4" and ll: "length ?l = 4" using padded_field(1) t L by simp_all
  have kne: "?k \<noteq> []" using len by auto
  have pne: "?p \<noteq> []" by (rule hex_of_nat_nonempty)
  have "hd ?s = hd ?k" using kne by simp
  moreover have "hex_digit (hd ?k) \<noteq> None" using hex kne by simp
  ultimately have h: "\<not> is_ws (hd ?s)" using hex_digit_not_ws by simp
  have "last ?s = last ?p" using pne by simp
  moreover have "hex_digit (last ?p) \<noteq> None" using hex_of_nat_digits pne last_in_set by blast
  ultimately have e: "\<not> is_ws (last ?s)" using hex_digit_not_ws by simp
  have tr: "trim ?s = ?s" using kne h e by (intro trim_id) simp_all
  have ge: "\<not> length ?s < 72" using len la ll pne by (cases ?p) simp_all
  have f1: "slice ?s 0 64 = ?k" using len by (simp add: slice_def)
  have f2: "slice ?s 64 68 = ?a" using len la by (simp add: slice_def)
  have f3: "slice ?s 68 72 = ?l" using len la ll by (simp add: slice_def)
  have f4: "drop 72 ?s = ?p" using len la ll by simp
  show ?thesis
    unfolding s unpackageKey_def tr Let_def f1 f2 f3 f4
    using ge parse padded_field(2) [OF t] padded_field(2) [OF L] first_field [OF p53]
    by simp
qed

lemma toy_package_Q:
  "packageKey toy_lib \<lparr>key = toy_key, firstPixelIndex = Num 0,
                          aliasCount = Num 65536, msgLength = Num 1\<rparr>
   = replicate 64 (CHR ''0'') @ ''1000000010''"
proof -
  have h: "hex_of_nat 65536 = ''10000''" "hex_of_nat (Suc 0) = ''1''" "hex_of_nat 0 = ''0''"
    by (simp_all add: hex_of_nat.simps hex_char_def char_of_def bit_simps)
  have p: "padStart 4 ''10000'' = ''10000''" "padStart 4 ''1'' = ''0001''"
    by (simp_all add: padStart_def numeral_3_eq_3)
  show ?thesis
    by (simp add: packageKey_def toy_lib_def toString16_def h p)
qed

lemma toy_unpackage_Q: "unpackageKey toy_lib (replicate 64 (CHR ''0'') @ ''1000000010'')
   = Inr \<lparr>key = toy_key, firstPixelIndex = Num 16, aliasCount = Num 4096, msgLength = Num 0\<rparr>"
proof -
  let ?s = "replicate 64 (CHR ''0'') @ ''1000000010''"
  have ws: "\<not> is_ws (CHR ''0'')" by (simp add: is_ws_def)
  have tr: "trim ?s = ?s" by (rule trim_id) (simp_all add: ws)
  have f: "slice ?s 0 64 = replicate 64 (CHR ''0'')" "slice ?s 64 68 = ''1000''"
    "slice ?s 68 72 = ''0000''" "drop 72 ?s = ''10''"
    by (simp_all add: slice_def)
  have v: "hex_value ''1000'' = 4096" "hex_value ''0000'' = 0" "hex_value ''10'' = 16"
    by (simp_all add: hex_value_def hex_digit_def)
  have d: "\<forall>c\<in>set ''1000''. hex_digit c \<noteq> None" "\<forall>c\<in>set ''0000''. hex_digit c \<noteq> None"
    "\<forall>c\<in>set ''10''. hex_digit c \<noteq> None"
    by (simp_all add: hex_digit_def)
  have p: "parseInt16 ''1000'' = Num 4096" "parseInt16 ''0000'' = Num 0" "parseInt16 ''10'' = Num 16"
    using parseInt16_hex [OF _ d(1)] parseInt16_hex [OF _ d(2)] parseInt16_hex [OF _ d(3)]
    by (simp_all add: v)
  show ?thesis
    unfolding unpackageKey_def tr Let_def f p by (simp add: toy_lib_def)
qed

text \<open>
  C5, at the alias count \<open>Q = 65536\<close>, the largest that the claim and the user interface
  allow: its hexadecimal form has five digits, which \<open>padStart(4, "0")\<close> does not
  shorten, so that every later field is read one character off. The key packaged for
  \<open>(K, t, L, pos\<^sub>0) = (K, 65536, 1, 0)\<close> is unpacked as \<open>(K, 4096, 0, 16)\<close>.
\<close>

theorem key_roundtrip_fails_at_Q:
  "unpackageKey toy_lib
     (packageKey toy_lib \<lparr>key = toy_key, firstPixelIndex = Num 0,
                          aliasCount = Num 65536, msgLength = Num 1\<rparr>)
   = Inr \<lparr>key = toy_key, firstPixelIndex = Num 16, aliasCount = Num 4096, msgLength = Num 0\<rparr>"
  unfolding toy_package_Q by (rule toy_unpackage_Q)

section \<open>Keys that decode does not expect\<close>

subsection \<open>The walk along the chain\<close>

lemma element_at_nonempty: "element_at ps x \<noteq> None \<Longrightarrow> ps \<noteq> []"
  by (cases x) (auto simp: element_at_def split: if_splits)

lemma walk_undefined: "0 < n \<Longrightarrow> walk lib K ps None n = Inl UndefinedPixel"
  by (cases n) simp_all

lemma walk_defined:
  "ps \<noteq> [] \<Longrightarrow> \<exists>bs. walk lib K ps (Some px) n = Inr bs \<and> length bs = n"
proof (induction n arbitrary: px)
  case 0
  then show ?case by simp
next
  case (Suc n)
  have l: "0 < length ps" using Suc.prems by simp
  obtain j where j: "next_pixel_idx lib K (pointer px) (length ps) = Some j" "j < length ps"
    using l by (simp add: next_pixel_idx_def Let_def)
  have e: "element_at ps (Num (int j)) = Some (ps ! j)" using j(2) by (simp add: element_at_def)
  obtain bs where "walk lib K ps (Some (ps ! j)) n = Inr bs" "length bs = n"
    using Suc.IH [OF Suc.prems] by blast
  then show ?case using j(1) e by simp
qed



section \<open>Alias renegotiation\<close>

lemma select_indices_length:
  assumes "select_indices random (Num (int n)) k0 acc0 = Some r" and "length acc0 \<le> n"
  shows "length r = n"
proof -
  let ?P = "\<lambda>(rnd :: nat \<Rightarrow> nat) tg (k::nat) acc (y::nat list).
      tg = Num (int n) \<longrightarrow> length acc \<le> n \<longrightarrow> length y = n"
  have "?P random (Num (int n)) k0 acc0 r"
  proof (rule select_indices.raw_induct [where P = ?P, OF _ assms(1)])
    fix f :: "(nat \<Rightarrow> nat) \<Rightarrow> jsnum \<Rightarrow> nat \<Rightarrow> nat list \<Rightarrow> nat list option"
    fix rnd tg k acc y
    assume IH: "\<And>rnd tg k acc y. f rnd tg k acc = Some y \<Longrightarrow> ?P rnd tg k acc y"
      and eq: "(if js_lt (length acc) tg
                then f rnd tg (Suc k) (if rnd k \<in> set acc then acc else acc @ [rnd k])
                else Some acc) = Some y"
    show "?P rnd tg k acc y"
    proof (intro impI)
      assume tg: "tg = Num (int n)" and le: "length acc \<le> n"
      show "length y = n"
      proof (cases "length acc < n")
        case True
        let ?acc = "if rnd k \<in> set acc then acc else acc @ [rnd k]"
        have "f rnd tg (Suc k) ?acc = Some y" using eq True tg by (simp add: js_lt_def)
        moreover have "length ?acc \<le> n" using True by simp
        ultimately show ?thesis using IH tg by blast
      next
        case False
        then have "y = acc" using eq tg by (simp add: js_lt_def)
        then show ?thesis using False le by simp
      qed
    qed
  qed
  then show ?thesis using assms(2) by simp
qed

lemma renegotiate_lowered:
  assumes low: "num_lt (floor_div DEFAULT_TOTAL_POINTERS (Num (int t))) L"
    and fits: "L \<le> DEFAULT_TOTAL_POINTERS"
  shows "renegotiate t L = (DEFAULT_TOTAL_POINTERS div L,
            Num (int (DEFAULT_TOTAL_POINTERS div (DEFAULT_TOTAL_POINTERS div L))))"
    and "L \<le> DEFAULT_TOTAL_POINTERS div (DEFAULT_TOTAL_POINTERS div L)"
    and "0 < L" and "0 < DEFAULT_TOTAL_POINTERS div L"
proof -
  have t0: "t \<noteq> 0" using low by (auto simp: num_lt_def floor_div_def split: if_splits)
  have c: "int DEFAULT_TOTAL_POINTERS div int t < int L"
    using low t0 by (simp add: num_lt_def floor_div_def)
  have "0 \<le> int DEFAULT_TOTAL_POINTERS div int t" unfolding zdiv_int [symmetric] by simp
  with c show L0: "0 < L" by simp
  then show a: "0 < DEFAULT_TOTAL_POINTERS div L" using fits by (simp add: div_greater_zero_iff)
  then have m: "max 1 (DEFAULT_TOTAL_POINTERS div L) = DEFAULT_TOTAL_POINTERS div L" by simp
  show "renegotiate t L = (DEFAULT_TOTAL_POINTERS div L,
            Num (int (DEFAULT_TOTAL_POINTERS div (DEFAULT_TOTAL_POINTERS div L))))"
    using low a by (simp add: renegotiate_def Let_def m floor_div_def zdiv_int)
  have "(DEFAULT_TOTAL_POINTERS div L) * L \<le> DEFAULT_TOTAL_POINTERS" by simp
  then show "L \<le> DEFAULT_TOTAL_POINTERS div (DEFAULT_TOTAL_POINTERS div L)"
    using a by (simp add: less_eq_div_iff_mult_less_eq mult.commute)
qed

section \<open>Renegotiation and odd keys on the small instance\<close>

lemma toy_renegotiate_Q: "renegotiate 65536 2 = (32768, Num 2)"
  by (simp add: renegotiate_def floor_div_def num_lt_def DEFAULT_TOTAL_POINTERS_def
      POINTER_CHANNEL_COUNT_def)

lemma toy_select2: "select_indices (\<lambda>k. k mod 4) (Num 2) 0 [] = Some [0, 1]"
  by code_simp

lemma toy_indices_Q: "encoder_indices toy_lib toy_key toy_image 2 65536 = Some [0, 1]"
  by (simp add: encoder_indices_def toy_renegotiate_Q js_min_def toy_image_def toy_lib_def
      toy_select2)

lemma toy_pixels2:
  "getPixels toy_image [0, 1] = Inr [toy_px 0 [65, 0, 5, 255], toy_px 1 [66, 9, 9, 255]]"
  unfolding toy_px_def toy_image_def by code_simp

lemma toy_last2:
  "select_last [toy_px 0 [65, 0, 5, 255], toy_px 1 [66, 9, 9, 255]] (Some 67)
     = Inr ([toy_px 0 [65, 0, 5, 255], (toy_px 1 [66, 9, 9, 255])\<lparr>bytes := [67, 9, 9, 255]\<rparr>],
            (toy_px 1 [66, 9, 9, 255])\<lparr>bytes := [67, 9, 9, 255]\<rparr>, 1)"
  unfolding toy_px_def by code_simp

lemma toy_candidates2:
  "candidatePixels toy_S2 65
     = toy_px 0 [65, 0, 5, 255] # [(toy_px 1 [66, 9, 9, 255])\<lparr>bytes := [67, 9, 9, 255]\<rparr>]"
  unfolding toy_px_def toy_S2_def by code_simp

lemma toy_pos2:
  "findIndex (\<lambda>p. index p = index (toy_px 0 [65, 0, 5, 255])) toy_S2 = 0"
  unfolding toy_px_def toy_S2_def by code_simp

lemma toy_pointer_valid2:
  "[0, 5] \<in> set (possiblePreviousPointers toy_lib toy_key 2 1)"
proof -
  have "(5::nat) < DEFAULT_TOTAL_POINTERS"
    by (simp add: DEFAULT_TOTAL_POINTERS_def POINTER_CHANNEL_COUNT_def)
  from allPointers_member [OF this] have "[0, 5 :: byte] \<in> set allPointers" by simp
  moreover have "next_pixel_idx toy_lib toy_key [0, 5] 2 = Some 1"
    by (simp add: next_pixel_idx_def toy_lib_def word_at_def channel_at_def)
  ultimately show ?thesis by (simp add: possiblePreviousPointers_def)
qed

lemma toy_byte2:
  "encode_byte toy_lib toy_key toy_S2 {1} 1 65 = Inr (toy_px 0 [65, 0, 5, 255], 0, 0)"
proof -
  have l: "length toy_S2 = 2" by (simp add: toy_S2_def)
  have "try_pointers (toy_px 0 [65, 0, 5, 255]) 0 65 (possiblePreviousPointers toy_lib toy_key 2 1) None
      = Inr (Break (Some (toy_px 0 [65, 0, 5, 255], 0, 0)))"
    by (rule try_pointers_perfect) (simp_all add: toy_px_def toy_pointer_valid2)
  then show ?thesis
    by (simp add: encode_byte_def toy_candidates2 toy_pos2 l)
qed

lemma toy_chain2:
  "build_chain toy_lib toy_key toy_image [0, 1] [65, 67]
     = Inr ([(toy_px 1 [66, 9, 9, 255])\<lparr>bytes := [67, 9, 9, 255]\<rparr>, toy_px 0 [65, 0, 5, 255]], 0)"
proof -
  have lb: "(if [65, 67 :: byte] = [] then None else Some (last [65, 67])) = Some 67" by simp
  have rb: "rev (butlast [65, 67 :: byte]) = [65]" by simp
  show ?thesis
    by (simp only: build_chain_def toy_pixels2 sum.case lb toy_last2 prod.case rb
        encode_chain.simps toy_byte2 [unfolded toy_S2_def] append.simps)
qed

lemma toy_write:
  "write_pixels toy_image
     [(toy_px 1 [66, 9, 9, 255])\<lparr>bytes := [67, 9, 9, 255]\<rparr>, toy_px 0 [65, 0, 5, 255]]
   = (None, toy_image\<lparr>channels := [65, 0, 5, 255,  67, 9, 9, 255,  30, 0, 2, 255,  40, 0, 3, 255]\<rparr>)"
  unfolding toy_px_def toy_image_def by code_simp

lemma toy_commit2:
  "commit toy_lib toy_key toy_image 2 32768
     ([(toy_px 1 [66, 9, 9, 255])\<lparr>bytes := [67, 9, 9, 255]\<rparr>, toy_px 0 [65, 0, 5, 255]], 0)
   = (Inr (replicate 64 (CHR ''0'') @ ''800000020''),
      toy_image\<lparr>channels := [65, 0, 5, 255,  67, 9, 9, 255,  30, 0, 2, 255,  40, 0, 3, 255]\<rparr>)"
proof -
  have h: "hex_of_nat 32768 = ''8000''" "hex_of_nat 2 = ''2''" "hex_of_nat 0 = ''0''"
    by (simp_all add: hex_of_nat.simps hex_char_def char_of_def bit_simps)
  have p: "padStart 4 ''8000'' = ''8000''" "padStart 4 ''2'' = ''0002''"
    by (simp_all add: padStart_def numeral_3_eq_3)
  have k: "packageKey toy_lib \<lparr>key = toy_key, firstPixelIndex = Num 0,
                               aliasCount = Num (int 32768), msgLength = Num (int 2)\<rparr>
           = replicate 64 (CHR ''0'') @ ''800000020''"
    by (simp add: packageKey_def toy_lib_def toString16_def h p)
  show ?thesis
    by (simp only: commit_def prod.case toy_write option.case k)
qed

lemma toy_encode_Q:
  "encode toy_lib toy_key toy_image ''AC'' 65536
   = Some (Inr (replicate 64 (CHR ''0'') @ ''800000020''),
      toy_image\<lparr>channels := [65, 0, 5, 255,  67, 9, 9, 255,  30, 0, 2, 255,  40, 0, 3, 255]\<rparr>)"
proof -
  have r: "isReady toy_image" "width toy_image * height toy_image = 4"
    by (simp_all add: toy_image_def)
  have len: "length [65, 67 :: byte] = 2" by simp
  have lt: "\<not> (2 :: nat) > 4" by simp
  show ?thesis
    by (simp only: encode_def r Let_def toy_aes len lt toy_indices_Q toy_chain2 toy_renegotiate_Q
        fst_conv toy_commit2 not_True_eq_False if_False option.case sum.case)
qed



section \<open>The search returns a pair of least distance\<close>

subsection \<open>The distance of a pair\<close>

lemma four_channels: "length xs = 4 \<Longrightarrow> \<exists>r g b a. xs = [r, g, b, a]"
  by (auto simp: length_Suc_conv numeral_eq_Suc)

lemma fresh_pixel:
  "length (bytes original) = 4 \<Longrightarrow>
   new_StegPixel (bytes original) (index original)
     = Inr \<lparr>bytes = bytes original, originalBytes = bytes original,
            index = index original, pointer = take 2 (drop 1 (bytes original))\<rparr>"
  by (simp add: new_StegPixel_def new_StegPointer_def POINTER_CHANNEL_COUNT_def Let_def)

lemma candidate_distance_modified:
  "length (bytes original) = 4 \<Longrightarrow>
   candidate_distance original byte p = similarity original (modified original byte p)"
  by (simp add: candidate_distance_def fresh_pixel modified_def)

lemma candidate_distance_explicit:
  assumes "bytes px = [r, g, b, a]"
  shows "candidate_distance px byte p
     = Inr (sqrt (real_of_int ((uint r - uint byte)\<^sup>2 + (uint g - uint (channel_at p 0))\<^sup>2
                                + (uint b - uint (channel_at p 1))\<^sup>2)))"
proof -
  have l: "length (bytes px) = 4" using assms by simp
  show ?thesis
    unfolding candidate_distance_modified [OF l]
    by (simp add: similarity_def modified_def setPointer_def setChannel_def Let_def assms)
qed

lemma candidate_distance_defined:
  assumes "length (bytes px) = 4"
  shows "\<exists>d. candidate_distance px byte p = Inr d \<and> 0 \<le> d"
proof -
  obtain r g b a where "bytes px = [r, g, b, a]" using four_channels [OF assms] by blast
  from candidate_distance_explicit [OF this] show ?thesis by simp
qed

lemma sum_squares_zero:
  fixes x y z :: real
  shows "(x\<^sup>2 + y\<^sup>2 + z\<^sup>2 = 0) = (x = 0 \<and> y = 0 \<and> z = 0)"
proof -
  have "0 \<le> x\<^sup>2" "0 \<le> y\<^sup>2" "0 \<le> z\<^sup>2" by simp_all
  then have "(x\<^sup>2 + y\<^sup>2 + z\<^sup>2 = 0) = (x\<^sup>2 = 0 \<and> y\<^sup>2 = 0 \<and> z\<^sup>2 = 0)" by linarith
  then show ?thesis by simp
qed

lemma perfect_iff:
  assumes "pixel_wf px" and "length p = 2"
  shows "(candidate_distance px byte p = Inr 0) = (bytes px ! RED = byte \<and> pointer px = p)"
proof -
  obtain r g b a where bs: "bytes px = [r, g, b, a]"
    using four_channels assms(1) unfolding pixel_wf_def by blast
  obtain p0 p1 where p: "p = [p0, p1]"
    using assms(2) by (auto simp: length_Suc_conv numeral_eq_Suc)
  have ptr: "pointer px = [g, b]" using assms(1) bs by (simp add: pixel_wf_def)
  have "(candidate_distance px byte p = Inr 0)
      = ((unsigned r - unsigned byte :: real)\<^sup>2 + (unsigned g - unsigned p0)\<^sup>2
           + (unsigned b - unsigned p1)\<^sup>2 = 0)"
    unfolding candidate_distance_explicit [OF bs] by (simp add: p channel_at_def)
  also have "\<dots> = ((unsigned r - unsigned byte :: real) = 0 \<and> (unsigned g - unsigned p0 :: real) = 0
                     \<and> (unsigned b - unsigned p1 :: real) = 0)"
    by (rule sum_squares_zero)
  also have "\<dots> = (r = byte \<and> g = p0 \<and> b = p1)"
    by (simp add: word_eq_iff_unsigned [where ?'a = real])
  also have "\<dots> = (bytes px ! RED = byte \<and> pointer px = p)" by (auto simp: bs ptr p)
  finally show ?thesis .
qed

lemma modified_fields:
  "index (modified px byte p) = index px"
  "pointer (modified px byte p) = p"
  "bytes (modified px byte p) = (bytes px)[0 := byte, 1 := channel_at p 0, 2 := channel_at p 1]"
  by (simp_all add: modified_def setPointer_def setChannel_def Let_def)

lemma perfect_unchanged:
  assumes "pixel_wf px" and "bytes px ! RED = byte" and "pointer px = p"
  shows "bytes px = (bytes px)[0 := byte, 1 := channel_at p 0, 2 := channel_at p 1]"
proof -
  obtain r g b a where bs: "bytes px = [r, g, b, a]"
    using four_channels assms(1) unfolding pixel_wf_def by blast
  have "p = [g, b]" using assms(1,3) bs by (simp add: pixel_wf_def)
  then show ?thesis using assms(2) bs by (simp add: channel_at_def)
qed

lemma try_pointers_Cons:
  assumes "length (bytes original) = 4" and "candidate_distance original byte p = Inr d"
    and "\<not> (bytes original ! RED = byte \<and> pointer original = p)"
  shows "try_pointers original pos byte (p # rest) best
     = try_pointers original pos byte rest
         (if (case best of None \<Rightarrow> True | Some (_, bd, _) \<Rightarrow> d < bd)
          then Some (modified original byte p, d, pos) else best)"
proof -
  have np: "(bytes original ! RED = byte \<and> pointer original = p) = False" using assms(3) by simp
  have s: "similarity original
             (setPointer (setChannel \<lparr>bytes = bytes original, originalBytes = bytes original,
                index = index original, pointer = take 2 (drop 1 (bytes original))\<rparr> RED byte) p)
           = Inr d"
    using assms(2) unfolding candidate_distance_modified [OF assms(1)] modified_def .
  show ?thesis
    by (simp only: try_pointers.simps np if_False fresh_pixel [OF assms(1)] sum.case Let_def s
        modified_def) (rule if_distrib [symmetric])
qed

subsection \<open>The invariant of the search\<close>

lemma chosen_all_ge:
  assumes "chosen S byte visited (bp, d, pos)" and "(x, q) \<in> set visited"
  shows "\<exists>d'. candidate_distance x byte q = Inr d' \<and> d \<le> d'"
proof -
  from assms(1) obtain pre px p post where
    v: "visited = pre @ (px, p) # post" and
    c: "candidate_distance px byte p = Inr d" and
    pre: "\<forall>(x, q)\<in>set pre. \<exists>d'. candidate_distance x byte q = Inr d' \<and> d < d'" and
    post: "\<forall>(x, q)\<in>set post. \<exists>d'. candidate_distance x byte q = Inr d' \<and> d \<le> d'"
    unfolding chosen_def by auto
  from assms(2) v have "(x, q) \<in> set pre \<or> (x, q) = (px, p) \<or> (x, q) \<in> set post" by auto
  then show ?thesis
  proof (elim disjE)
    assume "(x, q) \<in> set pre"
    with pre show ?thesis by fastforce
  next
    assume "(x, q) = (px, p)"
    with c show ?thesis by simp
  next
    assume "(x, q) \<in> set post"
    with post show ?thesis by fastforce
  qed
qed

lemma scan_inv_all_positive:
  assumes "scan_inv S byte visited best" and "(x, q) \<in> set visited"
  shows "\<exists>d'. candidate_distance x byte q = Inr d' \<and> 0 < d'"
proof (cases best)
  case None
  with assms show ?thesis by (simp add: scan_inv_def)
next
  case (Some b)
  obtain bp d pos where b: "b = (bp, d, pos)" by (cases b)
  from assms(1) Some b have d: "0 < d" and c: "chosen S byte visited (bp, d, pos)"
    by (simp_all add: scan_inv_def)
  from chosen_all_ge [OF c assms(2)] d show ?thesis by fastforce
qed

lemma scan_inv_step:
  assumes inv: "scan_inv S byte visited best"
    and mem: "original \<in> set S"
    and pos: "pos = findIndex (\<lambda>q. index q = index original) S"
    and cd: "candidate_distance original byte p = Inr dd" and dd: "0 < dd"
  shows "scan_inv S byte (visited @ [(original, p)])
           (if (case best of None \<Rightarrow> True | Some (_, bd, _) \<Rightarrow> dd < bd)
            then Some (modified original byte p, dd, pos) else best)"
proof (cases "case best of None \<Rightarrow> True | Some (_, bd, _) \<Rightarrow> dd < bd")
  case True
  have pre: "\<forall>(x, q)\<in>set visited. \<exists>d'. candidate_distance x byte q = Inr d' \<and> dd < d'"
  proof (cases best)
    case None
    with inv show ?thesis by (simp add: scan_inv_def)
  next
    case (Some b)
    obtain bp bd bpos where b: "b = (bp, bd, bpos)" by (cases b)
    from inv Some b have c: "chosen S byte visited (bp, bd, bpos)" by (simp add: scan_inv_def)
    from True Some b have lt: "dd < bd" by simp
    show ?thesis
    proof (clarify)
      fix x q
      assume "(x, q) \<in> set visited"
      from chosen_all_ge [OF c this] lt
      show "\<exists>d'. candidate_distance x byte q = Inr d' \<and> dd < d'" by fastforce
    qed
  qed
  have "chosen S byte (visited @ [(original, p)]) (modified original byte p, dd, pos)"
    unfolding chosen_def
    apply (simp only: prod.case)
    apply (rule exI [of _ visited], rule exI [of _ original], rule exI [of _ p], rule exI [of _ "[]"])
    using mem pos cd dd pre by (simp add: modified_fields)
  then show ?thesis using True dd by (simp add: scan_inv_def)
next
  case False
  then obtain bp bd bpos where b: "best = Some (bp, bd, bpos)" and le: "bd \<le> dd"
    by (cases best) (auto simp: not_less)
  from inv b have pos': "0 < bd" and c: "chosen S byte visited (bp, bd, bpos)"
    by (simp_all add: scan_inv_def)
  from c obtain pre px q post where
    v: "visited = pre @ (px, q) # post" and
    rest: "px \<in> set S" "bpos = findIndex (\<lambda>q. index q = index px) S" "index bp = index px"
      "pointer bp = q" "bytes bp = (bytes px)[0 := byte, 1 := channel_at q 0, 2 := channel_at q 1]"
      "candidate_distance px byte q = Inr bd" "0 < bd \<or> bp = px"
      "\<forall>(x, q)\<in>set pre. \<exists>d'. candidate_distance x byte q = Inr d' \<and> bd < d'"
      "\<forall>(x, q)\<in>set post. \<exists>d'. candidate_distance x byte q = Inr d' \<and> bd \<le> d'"
    unfolding chosen_def by auto
  have "chosen S byte (visited @ [(original, p)]) (bp, bd, bpos)"
    unfolding chosen_def
    apply (simp only: prod.case)
    apply (rule exI [of _ pre], rule exI [of _ px], rule exI [of _ q],
        rule exI [of _ "post @ [(original, p)]"])
    using v rest cd le by simp
  then show ?thesis using False b pos' by (simp add: scan_inv_def)
qed

lemma try_pointers_inv:
  assumes wf: "pixel_wf original" and mem: "original \<in> set S"
    and pos: "pos = findIndex (\<lambda>q. index q = index original) S"
  shows "\<forall>p\<in>set ptrs. length p = 2 \<Longrightarrow> scan_inv S byte visited best \<Longrightarrow>
     try_pointers original pos byte ptrs best = Inr r \<Longrightarrow>
     (case r of
        Continue b \<Rightarrow> scan_inv S byte (visited @ map (\<lambda>p. (original, p)) ptrs) b
      | Break b \<Rightarrow>
          (\<forall>tail. (\<forall>(x, q)\<in>set tail. length (bytes x) = 4) \<longrightarrow>
             scan_post S byte (visited @ map (\<lambda>p. (original, p)) ptrs @ tail) b))"
proof (induction ptrs arbitrary: best visited)
  case Nil
  then show ?case by auto
next
  case (Cons p rest)
  have l4: "length (bytes original) = 4" using wf by (simp add: pixel_wf_def)
  have lp: "length p = 2" using Cons.prems(1) by simp
  show ?case
  proof (cases "bytes original ! RED = byte \<and> pointer original = p")
    case True
    then have r: "r = Break (Some (original, 0, pos))" using Cons.prems(3) by simp
    have c0: "candidate_distance original byte p = Inr 0"
      using perfect_iff [OF wf lp] True by simp
    have "scan_post S byte (visited @ map (\<lambda>p. (original, p)) (p # rest) @ tail)
            (Some (original, 0, pos))"
      if tail: "\<forall>(x, q)\<in>set tail. length (bytes x) = 4" for tail
    proof -
      have pre: "\<forall>(x, q)\<in>set visited. \<exists>d'. candidate_distance x byte q = Inr d' \<and> 0 < d'"
        using scan_inv_all_positive [OF Cons.prems(2)] by blast
      have post: "\<forall>(x, q)\<in>set (map (\<lambda>p. (original, p)) rest @ tail).
                    \<exists>d'. candidate_distance x byte q = Inr d' \<and> 0 \<le> d'"
        using tail l4 candidate_distance_defined by fastforce
      have "chosen S byte (visited @ (original, p) # map (\<lambda>p. (original, p)) rest @ tail)
              (original, 0, pos)"
        unfolding chosen_def
        apply (simp only: prod.case)
        apply (rule exI [of _ visited], rule exI [of _ original], rule exI [of _ p],
            rule exI [of _ "map (\<lambda>p. (original, p)) rest @ tail"])
        using mem pos c0 pre post True perfect_unchanged [OF wf] by simp
      then show ?thesis by (simp add: scan_post_def)
    qed
    then show ?thesis unfolding r by simp
  next
    case False
    obtain dd where cd: "candidate_distance original byte p = Inr dd" and ge: "0 \<le> dd"
      using candidate_distance_defined [OF l4] by blast
    have "dd \<noteq> 0" using perfect_iff [OF wf lp] False cd by auto
    with ge have dd: "0 < dd" by simp
    let ?best = "if (case best of None \<Rightarrow> True | Some (_, bd, _) \<Rightarrow> dd < bd)
                 then Some (modified original byte p, dd, pos) else best"
    have t: "try_pointers original pos byte rest ?best = Inr r"
      using Cons.prems(3) unfolding try_pointers_Cons [OF l4 cd False] .
    have i: "scan_inv S byte (visited @ [(original, p)]) ?best"
      by (rule scan_inv_step [OF Cons.prems(2) mem pos cd dd])
    have "\<forall>p\<in>set rest. length p = 2" using Cons.prems(1) by simp
    from Cons.IH [OF this i t] show ?thesis by (cases r) simp_all
  qed
qed

lemma scan_inv_post: "scan_inv S byte visited b \<Longrightarrow> scan_post S byte visited b"
  by (cases b) (auto simp: scan_inv_def scan_post_def)

lemma search_post:
  assumes wfS: "\<forall>px\<in>set S. pixel_wf px" and len: "\<forall>p\<in>set ptrs. length p = 2"
  shows "set cands \<subseteq> set S \<Longrightarrow> scan_inv S byte visited best \<Longrightarrow>
     search S used byte ptrs cands best = Inr b \<Longrightarrow>
     scan_post S byte
       (visited @ concat (map (\<lambda>pixel. map (\<lambda>p. (pixel, p)) ptrs)
          (filter (\<lambda>pixel. let pos = findIndex (\<lambda>q. index q = index pixel) S
                           in \<not> (pos = - 1 \<or> pos \<in> used)) cands))) b"
proof (induction cands arbitrary: best visited)
  case Nil
  then show ?case by (simp add: scan_inv_post)
next
  case (Cons px rest)
  let ?pos = "findIndex (\<lambda>q. index q = index px) S"
  let ?unused = "\<lambda>pixel. let pos = findIndex (\<lambda>q. index q = index pixel) S
                           in \<not> (pos = - 1 \<or> pos \<in> used)"
  let ?visit = "\<lambda>cs. concat (map (\<lambda>pixel. map (\<lambda>p. (pixel, p)) ptrs) (filter ?unused cs))"
  have sub: "set rest \<subseteq> set S" and mem: "px \<in> set S" using Cons.prems(1) by simp_all
  show ?case
  proof (cases "?pos = - 1 \<or> ?pos \<in> used")
    case True
    then have "search S used byte ptrs rest best = Inr b" using Cons.prems(3) by (simp add: Let_def)
    from Cons.IH [OF sub Cons.prems(2) this] True show ?thesis by (auto simp: Let_def)
  next
    case False
    then have v: "?visit (px # rest) = map (\<lambda>p. (px, p)) ptrs @ ?visit rest"
      by (simp add: Let_def)
    from Cons.prems(3) False obtain r where
      t: "try_pointers px ?pos byte ptrs best = Inr r" and
      r: "(case r of Break b' \<Rightarrow> b = b' | Continue b' \<Rightarrow> search S used byte ptrs rest b' = Inr b)"
      by (auto simp: Let_def split: sum.splits outcome.splits)
    have wf: "pixel_wf px" using wfS mem by blast
    note inner = try_pointers_inv [OF wf mem refl len Cons.prems(2) t]
    show ?thesis
    proof (cases r)
      case (Break b')
      have tail: "\<forall>(x, q)\<in>set (?visit rest). length (bytes x) = 4"
        using sub wfS by (auto simp: pixel_wf_def)
      from inner Break tail have "scan_post S byte (visited @ map (\<lambda>p. (px, p)) ptrs @ ?visit rest) b'"
        by simp
      moreover have "b = b'" using r Break by simp
      ultimately show ?thesis unfolding v by simp
    next
      case (Continue b')
      from inner Continue have i: "scan_inv S byte (visited @ map (\<lambda>p. (px, p)) ptrs) b'" by simp
      have s: "search S used byte ptrs rest b' = Inr b" using r Continue by simp
      from Cons.IH [OF sub i s] show ?thesis unfolding v by simp
    qed
  qed
qed

subsection \<open>The pairs visited\<close>

lemma candidatePixels_order:
  "candidatePixels S byte =
     filter (\<lambda>px. bytes px ! RED = byte) S
     @ sort_key (\<lambda>a. \<bar>uint (bytes a ! RED) - uint byte\<bar>) (filter (\<lambda>px. bytes px ! RED \<noteq> byte) S)"
proof -
  have "filter (\<lambda>p. p \<notin> set (filter (\<lambda>pixel. bytes pixel ! RED = byte) S)) S
      = filter (\<lambda>px. bytes px ! RED \<noteq> byte) S"
    by (rule filter_cong) auto
  then show ?thesis by (simp add: candidatePixels_def Let_def)
qed

lemma set_candidatePixels_eq: "set (candidatePixels S byte) = set S"
  by (auto simp: candidatePixels_def Let_def)

lemma valid_pointer_iff:
  "p \<in> set (possiblePreviousPointers lib K n cur)
     = (p \<in> set allPointers \<and> (\<exists>m. next_pixel_idx lib K p n = Some m \<and> int m = cur))"
  by (auto simp: possiblePreviousPointers_def split: option.splits)

lemma allPointers_length: "p \<in> set allPointers \<Longrightarrow> length p = 2"
  unfolding allPointers_def by auto


lemma visit_order_unused:
  assumes "(px, p) \<in> set (visit_order S used byte ptrs)"
  shows "findIndex (\<lambda>q. index q = index px) S \<notin> used \<and> p \<in> set ptrs \<and> px \<in> set S"
  using assms set_candidatePixels_eq [of S byte] by (auto simp: visit_order_def Let_def)

subsection \<open>The pixels that encode searches\<close>

text \<open>
  The pixel objects that encode searches have four channels, their green and blue channels
  as pointer, and distinct indices.
\<close>

lemma select_indices_distinct:
  assumes "select_indices random target k0 acc0 = Some r" and "distinct acc0"
  shows "distinct r"
proof -
  let ?P = "\<lambda>(rnd :: nat \<Rightarrow> nat) (tg :: jsnum) (k::nat) acc (y::nat list). distinct acc \<longrightarrow> distinct y"
  have "?P random target k0 acc0 r"
  proof (rule select_indices.raw_induct [where P = ?P, OF _ assms(1)])
    fix f :: "(nat \<Rightarrow> nat) \<Rightarrow> jsnum \<Rightarrow> nat \<Rightarrow> nat list \<Rightarrow> nat list option"
    fix rnd tg k acc y
    assume IH: "\<And>rnd tg k acc y. f rnd tg k acc = Some y \<Longrightarrow> ?P rnd tg k acc y"
      and eq: "(if js_lt (length acc) tg
                then f rnd tg (Suc k) (if rnd k \<in> set acc then acc else acc @ [rnd k])
                else Some acc) = Some y"
    show "?P rnd tg k acc y"
    proof (cases "js_lt (length acc) tg")
      case True
      with eq have "f rnd tg (Suc k) (if rnd k \<in> set acc then acc else acc @ [rnd k]) = Some y"
        by simp
      from IH [OF this] show ?thesis by auto
    next
      case False
      with eq show ?thesis by simp
    qed
  qed
  with assms(2) show ?thesis by simp
qed

lemma encoder_indices_distinct:
  "encoder_indices lib K img L requestedAliasCount = Some uniqueIndices \<Longrightarrow> distinct uniqueIndices"
  unfolding encoder_indices_def Let_def by (erule select_indices_distinct) simp

lemma getPixelAt_wf: "getPixelAt img idx = Inr px \<Longrightarrow> pixel_wf px \<and> index px = idx"
  by (auto simp: getPixelAt_def new_StegPixel_def new_StegPointer_def POINTER_CHANNEL_COUNT_def
      pixel_wf_def Let_def split: if_splits)

lemma getPixels_wf:
  "getPixels img idxs = Inr pxs \<Longrightarrow> list_all pixel_wf pxs \<and> map index pxs = idxs"
proof (induction idxs arbitrary: pxs)
  case Nil
  then show ?case by simp
next
  case (Cons idx rest)
  then show ?case using getPixelAt_wf [of img idx]
    by (auto split: sum.splits)
qed

lemma setChannel_wf: "pixel_wf px \<Longrightarrow> pixel_wf (setChannel px c v) \<and> index (setChannel px c v) = index px"
  by (simp add: pixel_wf_def setChannel_def POINTER_CHANNEL_COUNT_def Let_def)

lemma select_last_wf:
  assumes wf: "list_all pixel_wf S0"
    and sl: "select_last S0 lastByte = Inr (S, currentPixel, currentPos)"
  shows "list_all pixel_wf S \<and> map index S = map index S0"
proof -
  let ?key = "\<lambda>a. case lastByte of None \<Rightarrow> 0 | Some b \<Rightarrow> \<bar>uint (bytes a ! RED) - uint b\<bar>"
  from sl obtain first rest where so: "sort_key ?key S0 = first # rest"
    by (auto simp: select_last_def split: list.splits)
  let ?v = "case lastByte of None \<Rightarrow> 0 | Some b \<Rightarrow> b"
  from sl so have cp: "currentPixel = setChannel first RED ?v"
    and pos: "currentPos = findIndex (\<lambda>p. index p = index currentPixel) S0"
    and S: "S = (if currentPos < 0 then S0 else S0[nat currentPos := currentPixel])"
    by (auto simp: select_last_def Let_def)
  have "first \<in> set (sort_key ?key S0)" unfolding so by simp
  then have mem: "first \<in> set S0" by simp
  then have wff: "pixel_wf first" using wf by (simp add: list_all_iff)
  have wfc: "pixel_wf currentPixel" and ic: "index currentPixel = index first"
    unfolding cp using setChannel_wf [OF wff] by simp_all
  show ?thesis
  proof (cases "currentPos < 0")
    case True
    then show ?thesis using S wf by simp
  next
    case False
    then have ne: "findIndex (\<lambda>p. index p = index currentPixel) S0 \<noteq> - 1" using pos by simp
    from findIndex_found [OF ne]
    have lt: "nat currentPos < length S0" and ix: "index (S0 ! nat currentPos) = index currentPixel"
      unfolding pos by simp_all
    have "set (S0[nat currentPos := currentPixel]) \<subseteq> insert currentPixel (set S0)"
      by (rule set_update_subset_insert)
    then have 1: "list_all pixel_wf S" using S False wf wfc by (auto simp: list_all_iff)
    have "map index (S0[nat currentPos := currentPixel]) = (map index S0)[nat currentPos := index currentPixel]"
      by (rule map_update)
    also have "\<dots> = map index S0" using ix lt by (simp add: list_update_same_conv)
    finally have 2: "map index S = map index S0" using S False by simp
    show ?thesis using 1 2 by simp
  qed
qed

lemma encodable_pixels_wf:
  assumes "encoder_indices lib K img L requestedAliasCount = Some uniqueIndices"
    and "getPixels img uniqueIndices = Inr S0"
    and "select_last S0 lastByte = Inr (S, currentPixel, currentPos)"
  shows "list_all pixel_wf S \<and> distinct (map index S)"
  using encoder_indices_distinct [OF assms(1)] getPixels_wf [OF assms(2)]
    select_last_wf [OF _ assms(3)] by simp

subsection \<open>The pair returned\<close>



section \<open>Decode reads back what encode wrote\<close>

subsection \<open>The chain that encode builds\<close>

lemma encode_byte_pair:
  assumes wf: "list_all pixel_wf S"
    and di: "distinct (map index S)"
    and res: "encode_byte lib K S used currentPos byte = Inr (bestPixel, d, bestPos)"
  shows "0 \<le> bestPos \<and> nat bestPos < length S \<and> bestPos \<notin> used
       \<and> next_pixel_idx lib K (pointer bestPixel) (length S) = Some (nat currentPos)
       \<and> 0 \<le> currentPos
       \<and> index bestPixel = index (S ! nat bestPos)
       \<and> pixel_wf bestPixel \<and> bytes bestPixel ! RED = byte"
proof -
  let ?ptrs = "possiblePreviousPointers lib K (length S) currentPos"
  let ?all = "visit_order S used byte ?ptrs"
  have wfS: "\<forall>px\<in>set S. pixel_wf px" using wf by (simp add: list_all_iff)
  have len: "\<forall>p\<in>set ?ptrs. length p = 2"
    using allPointers_length by (auto simp: valid_pointer_iff)
  from res have s: "search S used byte ?ptrs (candidatePixels S byte) None
      = Inr (Some (bestPixel, d, bestPos))"
    by (auto simp: encode_byte_def split: sum.splits option.splits)
  have "scan_post S byte ([] @ ?all) (Some (bestPixel, d, bestPos))"
    unfolding visit_order_def
    by (rule search_post [OF wfS len _ _ s]) (simp_all add: set_candidatePixels_eq scan_inv_def)
  then have ch: "chosen S byte ?all (bestPixel, d, bestPos)" by (simp add: scan_post_def)
  then obtain pre px p post where
    v: "?all = pre @ (px, p) # post" and mem: "px \<in> set S" and
    pos: "bestPos = findIndex (\<lambda>q. index q = index px) S" and
    idx: "index bestPixel = index px" and ptr: "pointer bestPixel = p" and
    bs: "bytes bestPixel = (bytes px)[0 := byte, 1 := channel_at p 0, 2 := channel_at p 1]"
    unfolding chosen_def by auto
  from mem obtain i where i: "i < length S" "S ! i = px" by (auto simp: in_set_conv_nth)
  have bp: "bestPos = int i" unfolding pos i(2) [symmetric] by (rule findIndex_distinct [OF di i(1)])
  then have at: "S ! nat bestPos = px" using i(2) by simp
  have "(px, p) \<in> set ?all" unfolding v by simp
  from visit_order_unused [OF this] have un: "bestPos \<notin> used" and pv: "p \<in> set ?ptrs"
    using pos by simp_all
  from pv obtain m where m: "next_pixel_idx lib K p (length S) = Some m" "int m = currentPos"
    by (auto simp: valid_pointer_iff)
  have l2: "length p = 2" using len pv by simp
  then obtain a b where p: "p = [a, b]"
    by (cases p; simp; cases "tl p"; auto)
  have l4: "length (bytes px) = 4" using wfS mem by (simp add: pixel_wf_def)
  obtain r g bl al where px: "bytes px = [r, g, bl, al]" using four_channels [OF l4] by blast
  have w: "pixel_wf bestPixel" by (simp add: pixel_wf_def bs ptr px p channel_at_def)
  have red: "bytes bestPixel ! RED = byte" by (simp add: bs px)
  show ?thesis using bp i(1) un m ptr idx at w red by auto
qed

lemma linked_Cons:
  "c \<noteq> [] \<Longrightarrow> linked lib K n c \<Longrightarrow> next_pixel_idx lib K (pointer e) n = Some (snd (hd c))
     \<Longrightarrow> linked lib K n ((e, q) # c)"
  by (cases c) auto

lemma encode_chain_inv:
  assumes wf: "list_all pixel_wf S" and di: "distinct (map index S)"
  shows "chain_inv lib K S c st \<Longrightarrow> encode_chain lib K S bs st = Inr st' \<Longrightarrow>
     \<exists>c'. chain_inv lib K S (c' @ c) st' \<and> map (\<lambda>(e, q). bytes e ! RED) c' = rev bs"
proof (induction bs arbitrary: c st)
  case Nil
  then show ?case by (cases st) auto
next
  case (Cons byte rest)
  obtain E cur used where st: "st = (E, cur, used)" by (cases st) auto
  from Cons.prems(2) st obtain bp d bpos where
    eb: "encode_byte lib K S used cur byte = Inr (bp, d, bpos)" and
    ec: "encode_chain lib K S rest (E @ [bp], bpos, insert bpos used) = Inr st'"
    by (auto split: sum.splits)
  note f = encode_byte_pair [OF wf di eb]
  from Cons.prems(1) st have
    ne: "c \<noteq> []" and E: "E = rev (map fst c)" and cur: "cur = int (snd (hd c))"
    and used: "used = int ` set (map snd c)" and dis: "distinct (map snd c)"
    and all: "\<forall>(e, q)\<in>set c. q < length S \<and> index e = index (S ! q) \<and> pixel_wf e"
    and li: "linked lib K (length S) c"
    by (simp_all add: chain_inv_def)
  let ?q = "nat bpos"
  have q: "int ?q = bpos" using f by simp
  have notin: "?q \<notin> set (map snd c)"
  proof
    assume "?q \<in> set (map snd c)"
    then have "int ?q \<in> used" unfolding used by (rule imageI)
    with f q show False by simp
  qed
  have nx: "next_pixel_idx lib K (pointer bp) (length S) = Some (snd (hd c))"
    using f cur by simp
  have "chain_inv lib K S ((bp, ?q) # c) (E @ [bp], bpos, insert bpos used)"
    unfolding chain_inv_def using f E used dis all notin q linked_Cons [OF ne li nx]
    by auto
  from Cons.IH [OF this ec] obtain c' where
    c': "chain_inv lib K S (c' @ (bp, ?q) # c) st'" "map (\<lambda>(e, q). bytes e ! RED) c' = rev rest"
    by blast
  have "chain_inv lib K S ((c' @ [(bp, ?q)]) @ c) st'" using c'(1) by simp
  moreover have "map (\<lambda>(e, q). bytes e ! RED) (c' @ [(bp, ?q)]) = rev (byte # rest)"
    using c'(2) f by simp
  ultimately show ?case by blast
qed


subsection \<open>The image that encode leaves\<close>


lemma getPixelAt_defined:
  "idx < width img * height img \<Longrightarrow> \<exists>px. getPixelAt img idx = Inr px"
  by (simp add: getPixelAt_def new_StegPixel_def new_StegPointer_def POINTER_CHANNEL_COUNT_def Let_def)


lemma getPixels_defined:
  "\<forall>i\<in>set idxs. i < width img * height img \<Longrightarrow> \<exists>D. getPixels img idxs = Inr D"
proof (induction idxs)
  case Nil
  then show ?case by simp
next
  case (Cons idx rest)
  then obtain D where "getPixels img rest = Inr D" by auto
  moreover obtain px where "getPixelAt img idx = Inr px"
    using getPixelAt_defined [of idx img] Cons.prems by auto
  ultimately show ?case by simp
qed




lemma select_last_chain:
  assumes wf: "list_all pixel_wf S0" and di: "distinct (map index S0)"
    and sl: "select_last S0 lastByte = Inr (S, currentPixel, currentPos)"
  shows "chain_inv lib K S [(currentPixel, nat currentPos)] ([currentPixel], currentPos, {currentPos})
       \<and> (\<forall>b. lastByte = Some b \<longrightarrow> bytes currentPixel ! RED = b)"
proof -
  let ?key = "\<lambda>a. case lastByte of None \<Rightarrow> 0 | Some b \<Rightarrow> \<bar>uint (bytes a ! RED) - uint b\<bar>"
  from sl obtain first rest where so: "sort_key ?key S0 = first # rest"
    by (auto simp: select_last_def split: list.splits)
  let ?v = "case lastByte of None \<Rightarrow> 0 | Some b \<Rightarrow> b"
  from sl so have cp: "currentPixel = setChannel first RED ?v"
    and pos: "currentPos = findIndex (\<lambda>p. index p = index currentPixel) S0"
    and S: "S = (if currentPos < 0 then S0 else S0[nat currentPos := currentPixel])"
    by (auto simp: select_last_def Let_def)
  have "first \<in> set (sort_key ?key S0)" unfolding so by simp
  then have mem: "first \<in> set S0" by simp
  then have wff: "pixel_wf first" using wf by (simp add: list_all_iff)
  have wfc: "pixel_wf currentPixel" and ic: "index currentPixel = index first"
    unfolding cp using setChannel_wf [OF wff] by simp_all
  have ne: "findIndex (\<lambda>p. index p = index currentPixel) S0 \<noteq> - 1"
    using mem ic by (auto simp: findIndex_none)
  from findIndex_found [OF ne]
  have ge: "0 \<le> currentPos" and lt: "nat currentPos < length S0"
    unfolding pos by simp_all
  have S': "S = S0[nat currentPos := currentPixel]" using S ge by simp
  have at: "S ! nat currentPos = currentPixel" using S' lt by simp
  have "length (bytes first) = 4" using wff by (simp add: pixel_wf_def)
  then have red: "bytes currentPixel ! RED = ?v" by (simp add: cp setChannel_def Let_def)
  have "chain_inv lib K S [(currentPixel, nat currentPos)] ([currentPixel], currentPos, {currentPos})"
    using ge lt at wfc S' by (simp add: chain_inv_def)
  then show ?thesis using red by auto
qed

subsection \<open>The round trip where the candidate sets agree\<close>

lemma write_pixels_dims:
  "write_pixels img E = (r, img') \<Longrightarrow>
     width img' = width img \<and> height img' = height img \<and> isReady img' = isReady img"
proof (induction E arbitrary: img)
  case Nil
  then show ?case by simp
next
  case (Cons e rest)
  show ?case
  proof (cases "setPixelAt img e")
    case (Inl x)
    then show ?thesis using Cons.prems by simp
  next
    case (Inr img1)
    then have "width img1 = width img \<and> height img1 = height img \<and> isReady img1 = isReady img"
      by (auto simp: setPixelAt_def Let_def split: if_splits)
    moreover have "write_pixels img1 rest = (r, img')" using Cons.prems Inr by simp
    ultimately show ?thesis using Cons.IH by metis
  qed
qed

lemma renegotiate_snd:
  "snd (renegotiate t L) = floor_div DEFAULT_TOTAL_POINTERS (Num (int (fst (renegotiate t L))))"
  by (simp add: renegotiate_def Let_def)


lemma build_chain_first:
  assumes di: "distinct idxs"
    and bc: "build_chain lib K img idxs msg_e = Inr (E, firstPos)"
  shows "0 \<le> firstPos \<and> nat firstPos < length idxs"
proof -
  let ?lastByte = "if msg_e = [] then None else Some (last msg_e)"
  from bc obtain S0 S cp cpos used where
    g0: "getPixels img idxs = Inr S0" and
    sl: "select_last S0 ?lastByte = Inr (S, cp, cpos)" and
    ec: "encode_chain lib K S (rev (butlast msg_e)) ([cp], cpos, {cpos}) = Inr (E, firstPos, used)"
    by (auto simp: build_chain_def split: sum.splits)
  have wf0: "list_all pixel_wf S0" and ix0: "map index S0 = idxs"
    using getPixels_wf [OF g0] by simp_all
  have wfS: "list_all pixel_wf S" and ixS: "map index S = idxs"
    using select_last_wf [OF wf0 sl] ix0 by simp_all
  have diS: "distinct (map index S)" using ixS di by simp
  have di0: "distinct (map index S0)" using ix0 di by simp
  note init = select_last_chain [OF wf0 di0 sl, of lib K]
  from encode_chain_inv [OF wfS diS init [THEN conjunct1] ec] obtain c' where
    inv: "chain_inv lib K S (c' @ [(cp, nat cpos)]) (E, firstPos, used)"
    by blast
  let ?c = "c' @ [(cp, nat cpos)]"
  from inv have fp: "firstPos = int (snd (hd ?c))"
    and all: "\<forall>(e, q)\<in>set ?c. q < length S" by (auto simp: chain_inv_def)
  have "hd ?c \<in> set ?c" by (rule hd_in_set) simp
  then have "snd (hd ?c) < length S" using all by (auto simp del: hd_append2 hd_append)
  moreover have "length S = length idxs" using ixS by (metis length_map)
  ultimately show ?thesis using fp by simp
qed

lemma encoder_indices_length:
  assumes t: "1 \<le> fst (renegotiate t L)"
    and ei: "encoder_indices lib K img L t = Some idxs"
  shows "length idxs = min (DEFAULT_TOTAL_POINTERS div fst (renegotiate t L)) (width img * height img)"
proof -
  let ?t = "fst (renegotiate t L)"
  let ?n = "min (DEFAULT_TOTAL_POINTERS div ?t) (width img * height img)"
  have "floor_div DEFAULT_TOTAL_POINTERS (Num (int ?t)) = Num (int (DEFAULT_TOTAL_POINTERS div ?t))"
    using t by (simp add: floor_div_def zdiv_int)
  then have "js_min (snd (renegotiate t L)) (width img * height img) = Num (int ?n)"
    by (simp add: renegotiate_snd js_min_def of_nat_min del: of_nat_mult)
  then have "select_indices (isaac_index lib (toString lib K) (width img * height img))
               (Num (int ?n)) 0 [] = Some idxs"
    using ei by (simp add: encoder_indices_def Let_def)
  from select_indices_length [OF this] show ?thesis by simp
qed

lemma first_position_small:
  assumes t: "1 \<le> fst (renegotiate t L)"
    and ei: "encoder_indices lib K img L t = Some idxs"
    and di: "distinct idxs"
    and bc: "build_chain lib K img idxs msg_e = Inr (E, firstPos)"
  shows "nat firstPos < 2 ^ 53"
proof -
  have "nat firstPos < length idxs" using build_chain_first [OF di bc] by simp
  also have "length idxs \<le> DEFAULT_TOTAL_POINTERS div fst (renegotiate t L)"
    using encoder_indices_length [OF t ei] by simp
  also have "\<dots> \<le> DEFAULT_TOTAL_POINTERS" by (rule div_le_dividend)
  also have "\<dots> < 2 ^ 53" by (simp add: DEFAULT_TOTAL_POINTERS_def POINTER_CHANNEL_COUNT_def)
  finally show ?thesis .
qed




section \<open>Decode after encode on an image smaller than the candidate set\<close>

lemma decoder_indices_diverges:
  assumes t: "1 \<le> t" and small: "width img * height img < DEFAULT_TOTAL_POINTERS div t"
    and rnd: "\<forall>k. isaac_index lib (toString lib (key unpackagedKey)) (width img * height img) k
                 < width img * height img"
    and a: "aliasCount unpackagedKey = Num (int t)"
  shows "decoder_indices lib img unpackagedKey = None"
proof -
  have "floor_div DEFAULT_TOTAL_POINTERS (Num (int t)) = Num (int (DEFAULT_TOTAL_POINTERS div t))"
    using t by (simp add: floor_div_def zdiv_int)
  moreover have "js_lt (width img * height img) (Num (int (DEFAULT_TOTAL_POINTERS div t)))"
    using small unfolding js_lt_def jsnum.case by (simp only: of_nat_less_iff)
  ultimately have "js_lt (width img * height img) (floor_div DEFAULT_TOTAL_POINTERS (aliasCount unpackagedKey))"
    using a by simp
  from select_indices_never_returns [OF rnd this, of "[]" 0]
  show ?thesis by (simp add: decoder_indices_def Let_def)
qed

text \<open>
  C1, as the code has it. decode asks for as many distinct pixel indices as the alias count
  of the key gives, \<open>\<lfloor>Q / t\<rfloor>\<close>, where encode asks for no more than the image has. So
  whenever encode returns a key for an image with fewer pixels than that (the key printing
  as 64 hexadecimal digits that parse back to it, the alias count and the length of the
  ciphertext fitting their four digits, the random indices being indices of the image),
  the selection loop of decode never ends: decode of the image and the key that encode
  leaves does not return the plaintext, nor anything else.
\<close>

theorem decode_of_encode_never_returns:
  assumes enc: "encode lib K img message t = Some (Inr packed, img')"
    and k64: "length (toString lib K) = 64"
    and hex: "\<forall>c\<in>set (toString lib K). hex_digit c \<noteq> None"
    and parse: "Hex_parse lib (toString lib K) = K"
    and t1: "1 \<le> fst (renegotiate t (length (aes_encrypt lib K message)))"
    and t16: "fst (renegotiate t (length (aes_encrypt lib K message))) < 65536"
    and L16: "length (aes_encrypt lib K message) < 65536"
    and small: "width img * height img
                  < DEFAULT_TOTAL_POINTERS div fst (renegotiate t (length (aes_encrypt lib K message)))"
    and rnd: "\<forall>k. isaac_index lib (toString lib K) (width img * height img) k
                 < width img * height img"
  shows "decode lib img' packed = None"
proof -
  let ?m = "aes_encrypt lib K message"
  let ?t = "fst (renegotiate t (length ?m))"
  from encode_cases [OF enc] obtain idxs chain where
    ei: "encoder_indices lib K img (length ?m) t = Some idxs" and
    ready: "isReady img" and
    bc: "build_chain lib K img idxs ?m = Inr chain" and
    co: "(Inr packed, img') = commit lib K img (length ?m) ?t chain"
    by auto
  obtain E firstPos where chain: "chain = (E, firstPos)" by (cases chain)
  from co chain have wr: "write_pixels img E = (None, img')"
    and packed: "packed = packageKey lib \<lparr>key = K, firstPixelIndex = Num firstPos,
                    aliasCount = Num (int ?t), msgLength = Num (int (length ?m))\<rparr>"
    by (auto simp: commit_def split: prod.splits option.splits)
  have di: "distinct idxs" by (rule encoder_indices_distinct [OF ei])
  have dims: "width img' = width img" "height img' = height img" and ready': "isReady img'"
    using write_pixels_dims [OF wr] ready by simp_all
  have ge: "0 \<le> firstPos" using build_chain_first [OF di bc [unfolded chain]] by simp
  let ?key = "\<lparr>key = K, firstPixelIndex = Num (int (nat firstPos)),
               aliasCount = Num (int ?t), msgLength = Num (int (length ?m))\<rparr>"
  have fp: "Num firstPos = Num (int (nat firstPos))" using ge by simp
  have un: "unpackageKey lib packed = Inr ?key"
    unfolding packed fp
    by (rule key_roundtrip_u16 [OF k64 hex parse t16 L16
          first_position_small [OF t1 ei di bc [unfolded chain]]])
  have ix: "decoder_indices lib img' ?key = None"
    by (rule decoder_indices_diverges [OF t1]) (simp_all add: dims small rnd)
  show ?thesis
    by (simp only: decode_def un sum.case ready' not_True_eq_False if_False ix option.case)
qed

text \<open>
  The run on the 2 by 2 image at the default alias count 32: encode succeeds on a message
  of two bytes, which the four pixels have room for, and decode never returns.
\<close>

theorem decode_of_encode_never_returns_witness:
  "encode toy_lib toy_key toy_image ''AC'' 32
     = Some (Inr (replicate 64 (CHR ''0'') @ ''002000020''),
             toy_image\<lparr>channels := [65, 0, 5, 255,  67, 9, 9, 255,  30, 0, 2, 255,  40, 0, 3, 255]\<rparr>)
   \<and> length (aes_encrypt toy_lib toy_key ''AC'') \<le> width toy_image * height toy_image
   \<and> width toy_image * height toy_image
        < DEFAULT_TOTAL_POINTERS div fst (renegotiate 32 (length (aes_encrypt toy_lib toy_key ''AC'')))
   \<and> decode toy_lib
        (toy_image\<lparr>channels := [65, 0, 5, 255,  67, 9, 9, 255,  30, 0, 2, 255,  40, 0, 3, 255]\<rparr>)
        (replicate 64 (CHR ''0'') @ ''002000020'') = None"
proof -
  have l: "length (aes_encrypt toy_lib toy_key ''AC'') = 2" by (simp add: toy_aes)
  have r: "fst (renegotiate 32 (length (aes_encrypt toy_lib toy_key ''AC''))) = 32"
    by (simp only: l toy_renegotiate fst_conv)
  have cap: "length (aes_encrypt toy_lib toy_key ''AC'') \<le> width toy_image * height toy_image"
    unfolding l by (simp add: toy_image_def)
  have small: "width toy_image * height toy_image
        < DEFAULT_TOTAL_POINTERS div fst (renegotiate 32 (length (aes_encrypt toy_lib toy_key ''AC'')))"
    unfolding r by (simp add: DEFAULT_TOTAL_POINTERS_def POINTER_CHANNEL_COUNT_def toy_image_def)
  have "decode toy_lib
        (toy_image\<lparr>channels := [65, 0, 5, 255,  67, 9, 9, 255,  30, 0, 2, 255,  40, 0, 3, 255]\<rparr>)
        (replicate 64 (CHR ''0'') @ ''002000020'') = None"
  proof (rule decode_of_encode_never_returns [OF toy_encode _ _ _ _ _ _ small])
    show "length (toString toy_lib toy_key) = 64" by (simp add: toy_lib_def)
    show "\<forall>c\<in>set (toString toy_lib toy_key). hex_digit c \<noteq> None"
      by (simp add: toy_lib_def hex_digit_def)
    show "Hex_parse toy_lib (toString toy_lib toy_key) = toy_key" by (simp add: toy_lib_def)
    show "1 \<le> fst (renegotiate 32 (length (aes_encrypt toy_lib toy_key ''AC'')))"
      unfolding r by simp
    show "fst (renegotiate 32 (length (aes_encrypt toy_lib toy_key ''AC''))) < 65536"
      unfolding r by simp
    show "length (aes_encrypt toy_lib toy_key ''AC'') < 65536" unfolding l by simp
    show "\<forall>k. isaac_index toy_lib (toString toy_lib toy_key) (width toy_image * height toy_image) k
            < width toy_image * height toy_image"
      by (simp add: toy_lib_def toy_image_def)
  qed
  with toy_encode cap small show ?thesis by (intro conjI)
qed

section \<open>What decode does with a key\<close>

subsection \<open>The outcomes of decode\<close>



lemma walk_outcome:
  "(0 < n \<and> element_at ps x = None \<longrightarrow> walk lib K ps (element_at ps x) n = Inl UndefinedPixel)
   \<and> (\<not> (0 < n \<and> element_at ps x = None) \<longrightarrow>
        (\<exists>msg_e. walk lib K ps (element_at ps x) n = Inr msg_e \<and> length msg_e = n))"
proof (intro conjI impI)
  assume "0 < n \<and> element_at ps x = None"
  then show "walk lib K ps (element_at ps x) n = Inl UndefinedPixel"
    using walk_undefined [of n lib K ps] by simp
next
  assume a: "\<not> (0 < n \<and> element_at ps x = None)"
  show "\<exists>msg_e. walk lib K ps (element_at ps x) n = Inr msg_e \<and> length msg_e = n"
  proof (cases "n = 0")
    case True
    then show ?thesis by simp
  next
    case False
    with a obtain px where px: "element_at ps x = Some px" by auto
    then have "ps \<noteq> []" using element_at_nonempty [of ps x] by simp
    from walk_defined [OF this, of lib K px n] show ?thesis using px by simp
  qed
qed

lemma decode_unpacked:
  assumes "isReady img" and "unpackageKey lib packed = Inr k"
    and "decoder_indices lib img k = Some idxs" and "getPixels img idxs = Inr ps"
    and "new_Uint8Array (msgLength k) = Inr n"
  shows "if 0 < n \<and> element_at ps (firstPixelIndex k) = None
         then decode lib img packed = Some (Inl UndefinedPixel)
         else \<exists>msg_e. length msg_e = n
                \<and> decode lib img packed = Some (Inr (aes_decrypt lib (key k) msg_e))"
proof -
  have d: "decode lib img packed
      = Some (case walk lib (key k) ps (element_at ps (firstPixelIndex k)) n of
                Inl e \<Rightarrow> Inl e | Inr msg_e \<Rightarrow> Inr (aes_decrypt lib (key k) msg_e))"
    using assms by (simp add: decode_def)
  note w = walk_outcome [of n ps "firstPixelIndex k" lib "key k"]
  show ?thesis
  proof (cases "0 < n \<and> element_at ps (firstPixelIndex k) = None")
    case True
    then show ?thesis using d w by simp
  next
    case False
    then obtain msg_e where
      "walk lib (key k) ps (element_at ps (firstPixelIndex k)) n = Inr msg_e" "length msg_e = n"
      using w by blast
    then show ?thesis using d False by auto
  qed
qed


text \<open>When a length is refused and when a position is undefined.\<close>

lemma new_Uint8Array_refused:
  "(\<exists>e. new_Uint8Array x = Inl e)
     = (case x of NaN \<Rightarrow> False | PosInf \<Rightarrow> True | NegInf \<Rightarrow> True | NegZero \<Rightarrow> False
        | Num i \<Rightarrow> i < 0 \<or> 2 ^ 53 - 1 < i)"
  by (cases x) (auto simp: new_Uint8Array_def)

lemma element_at_undefined:
  "(element_at ps x = None)
     = (case x of NaN \<Rightarrow> True | PosInf \<Rightarrow> True | NegInf \<Rightarrow> True | NegZero \<Rightarrow> ps = []
        | Num i \<Rightarrow> i < 0 \<or> int (length ps) \<le> i)"
  by (cases x; cases ps) (auto simp: element_at_def)

text \<open>For the alias count 0 the selection asks for infinitely many indices.\<close>

lemma select_indices_PosInf: "select_indices random PosInf k0 acc0 = None"
proof (cases "select_indices random PosInf k0 acc0")
  case None
  then show ?thesis .
next
  case (Some y0)
  let ?P = "\<lambda>(rnd :: nat \<Rightarrow> nat) tg (k::nat) (acc :: nat list) (y::nat list). tg = PosInf \<longrightarrow> False"
  have "?P random PosInf k0 acc0 y0"
  proof (rule select_indices.raw_induct [where P = ?P, OF _ Some])
    fix f :: "(nat \<Rightarrow> nat) \<Rightarrow> jsnum \<Rightarrow> nat \<Rightarrow> nat list \<Rightarrow> nat list option"
    fix rnd tg k acc y
    assume IH: "\<And>rnd tg k acc y. f rnd tg k acc = Some y \<Longrightarrow> ?P rnd tg k acc y"
      and eq: "(if js_lt (length acc) tg
                then f rnd tg (Suc k) (if rnd k \<in> set acc then acc else acc @ [rnd k])
                else Some acc) = Some y"
    show "?P rnd tg k acc y"
    proof
      assume tg: "tg = PosInf"
      with eq have "f rnd tg (Suc k) (if rnd k \<in> set acc then acc else acc @ [rnd k]) = Some y"
        by (simp add: js_lt_def)
      from IH [OF this] tg show False by simp
    qed
  qed
  then show ?thesis by simp
qed

lemma decoder_indices_zero_alias:
  "aliasCount unpackagedKey = Num 0 \<Longrightarrow> decoder_indices lib img unpackagedKey = None"
  by (simp add: decoder_indices_def floor_div_def select_indices_PosInf)


subsection \<open>Keys on the small image\<close>





text \<open>
  The alias field \<open>-000\<close> is read as negative zero: \<open>\<lfloor>Q / -0\<rfloor>\<close> is \<open>-Infinity\<close>, no pixel is
  selected, and the first byte is read from an undefined pixel.
\<close>

lemma toy_unpackage_negative_zero:
  "unpackageKey toy_lib (replicate 64 (CHR ''0'') @ ''-00000010'')
   = Inr \<lparr>key = toy_key, firstPixelIndex = Num 0, aliasCount = NegZero, msgLength = Num 1\<rparr>"
proof -
  let ?s = "replicate 64 (CHR ''0'') @ ''-00000010''"
  have ws: "\<not> is_ws (CHR ''0'')" by (simp add: is_ws_def)
  have tr: "trim ?s = ?s" by (rule trim_id) (simp_all add: ws)
  have f: "slice ?s 0 64 = replicate 64 (CHR ''0'')" "slice ?s 64 68 = ''-000''"
    "slice ?s 68 72 = ''0001''" "drop 72 ?s = ''0''"
    by (simp_all add: slice_def)
  have v: "hex_value ''0001'' = 1" "hex_value ''0'' = 0"
    by (simp_all add: hex_value_def hex_digit_def)
  have d: "\<forall>c\<in>set ''0001''. hex_digit c \<noteq> None" "\<forall>c\<in>set ''0''. hex_digit c \<noteq> None"
    by (simp_all add: hex_digit_def)
  have p: "parseInt16 ''0001'' = Num 1" "parseInt16 ''0'' = Num 0"
    using parseInt16_hex [OF _ d(1)] parseInt16_hex [OF _ d(2)] by (simp_all add: v)
  have z: "parseInt16 ''-000'' = NegZero"
    by (simp add: parseInt16_def is_ws_def hex_digit_def hex_value_def to_double_def)
  show ?thesis
    unfolding unpackageKey_def tr Let_def f p z by (simp add: toy_lib_def)
qed

lemma select_indices_NegInf: "select_indices random NegInf k acc = Some acc"
  by (subst select_indices.simps) (simp add: js_lt_def)

lemma decode_negative_zero_alias:
  "decode toy_lib toy_image (replicate 64 (CHR ''0'') @ ''-00000010'') = Some (Inl UndefinedPixel)"
proof -
  let ?k = "\<lparr>key = toy_key, firstPixelIndex = Num 0, aliasCount = NegZero, msgLength = Num 1\<rparr>"
  have r: "isReady toy_image" by (simp add: toy_image_def)
  have i: "decoder_indices toy_lib toy_image ?k = Some []"
    by (simp add: decoder_indices_def floor_div_def select_indices_NegInf)
  have g: "getPixels toy_image [] = Inr []" by simp
  have n: "new_Uint8Array (msgLength ?k) = Inr 1" by (simp add: new_Uint8Array_def)
  have e: "element_at ([] :: StegPixel list) (firstPixelIndex ?k) = None"
    by (simp add: element_at_def)
  from decode_unpacked [OF r toy_unpackage_negative_zero i g n] e
  show ?thesis by simp
qed



section \<open>The alias count that encode works with\<close>

lemma search_no_pointers: "search S used byte [] cands best = Inr best"
  by (induction cands arbitrary: best) (simp_all add: Let_def)

lemma encode_byte_no_pointer:
  "possiblePreviousPointers lib K (length S) cur = [] \<Longrightarrow>
     encode_byte lib K S used cur byte = Inl InvariantViolated"
  by (simp add: encode_byte_def search_no_pointers)

lemma alias_field:
  assumes k64: "length (toString lib K) = 64" and a: "a < 65536"
  shows "slice (packageKey lib \<lparr>key = K, firstPixelIndex = p,
                    aliasCount = Num (int a), msgLength = l\<rparr>) 64 68
         = padStart 4 (hex_of_nat a)"
proof -
  have "length (padStart 4 (hex_of_nat a)) = 4" by (rule padded_field(1) [OF a])
  then show ?thesis using k64 by (simp add: packageKey_def toString16_def slice_def)
qed

lemma commit_key:
  "commit lib K img L a chain = (Inr packed, img') \<Longrightarrow>
     packed = packageKey lib \<lparr>key = K, firstPixelIndex = Num (snd chain),
                aliasCount = Num (int a), msgLength = Num (int L)\<rparr>"
  by (cases chain) (auto simp: commit_def split: prod.splits option.splits)

subsection \<open>When encode returns a key\<close>

lemma try_pointers_total:
  assumes l4: "length (bytes original) = 4"
  shows "\<exists>r. try_pointers original pos byte ptrs best = Inr r
           \<and> (case r of Break b \<Rightarrow> b \<noteq> None
               | Continue b \<Rightarrow> (ptrs \<noteq> [] \<or> best \<noteq> None \<longrightarrow> b \<noteq> None))"
proof (induction ptrs arbitrary: best)
  case Nil
  show ?case by simp
next
  case (Cons p rest)
  show ?case
  proof (cases "bytes original ! RED = byte \<and> pointer original = p")
    case True
    then have "try_pointers original pos byte (p # rest) best
        = Inr (Break (Some (original, 0, pos)))" by simp
    then show ?thesis by simp
  next
    case False
    obtain d where d: "candidate_distance original byte p = Inr d"
      using candidate_distance_defined [OF l4] by blast
    let ?best = "if (case best of None \<Rightarrow> True | Some (_, bd, _) \<Rightarrow> d < bd)
          then Some (modified original byte p, d, pos) else best"
    have e: "try_pointers original pos byte (p # rest) best
        = try_pointers original pos byte rest ?best"
      by (rule try_pointers_Cons [OF l4 d False])
    have ne: "?best \<noteq> None" by (cases best) auto
    from Cons.IH [of ?best] obtain r where
      r: "try_pointers original pos byte rest ?best = Inr r"
      and c: "case r of Break b \<Rightarrow> b \<noteq> None
               | Continue b \<Rightarrow> (rest \<noteq> [] \<or> ?best \<noteq> None \<longrightarrow> b \<noteq> None)"
      by blast
    have "case r of Break b \<Rightarrow> b \<noteq> None
               | Continue b \<Rightarrow> (p # rest \<noteq> [] \<or> best \<noteq> None \<longrightarrow> b \<noteq> None)"
      using c ne by (cases r) simp_all
    then show ?thesis unfolding e using r by blast
  qed
qed

lemma search_total:
  assumes wf: "\<forall>px\<in>set cands. length (bytes px) = 4"
  shows "\<exists>b. search S used byte ptrs cands best = Inr b
           \<and> (best \<noteq> None
                \<or> (ptrs \<noteq> [] \<and> (\<exists>px\<in>set cands.
                       findIndex (\<lambda>q. index q = index px) S \<noteq> - 1
                       \<and> findIndex (\<lambda>q. index q = index px) S \<notin> used)) \<longrightarrow> b \<noteq> None)"
  using wf
proof (induction cands arbitrary: best)
  case Nil
  show ?case by simp
next
  case (Cons px rest)
  let ?pos = "findIndex (\<lambda>q. index q = index px) S"
  have wfr: "\<forall>px\<in>set rest. length (bytes px) = 4" using Cons.prems by simp
  have l4: "length (bytes px) = 4" using Cons.prems by simp
  show ?case
  proof (cases "?pos = - 1 \<or> ?pos \<in> used")
    case True
    then have e: "search S used byte ptrs (px # rest) best = search S used byte ptrs rest best"
      by (simp add: Let_def)
    from Cons.IH [OF wfr, of best] show ?thesis unfolding e using True by auto
  next
    case False
    from try_pointers_total [OF l4, of ?pos byte ptrs best] obtain r where
      r: "try_pointers px ?pos byte ptrs best = Inr r"
      and c: "case r of Break b \<Rightarrow> b \<noteq> None
               | Continue b \<Rightarrow> (ptrs \<noteq> [] \<or> best \<noteq> None \<longrightarrow> b \<noteq> None)"
      by blast
    show ?thesis
    proof (cases r)
      case (Break b)
      then have "search S used byte ptrs (px # rest) best = Inr b"
        using False r by (simp add: Let_def)
      moreover have "b \<noteq> None" using c Break by simp
      ultimately show ?thesis by simp
    next
      case (Continue b')
      then have e: "search S used byte ptrs (px # rest) best = search S used byte ptrs rest b'"
        using False r by (simp add: Let_def)
      have b': "ptrs \<noteq> [] \<or> best \<noteq> None \<longrightarrow> b' \<noteq> None" using c Continue by simp
      from Cons.IH [OF wfr, of b'] obtain b where
        b: "search S used byte ptrs rest b' = Inr b"
        and k: "b' \<noteq> None \<or> (ptrs \<noteq> [] \<and> (\<exists>px\<in>set rest.
                       findIndex (\<lambda>q. index q = index px) S \<noteq> - 1
                       \<and> findIndex (\<lambda>q. index q = index px) S \<notin> used)) \<longrightarrow> b \<noteq> None"
        by blast
      have "best \<noteq> None \<or> (ptrs \<noteq> [] \<and> (\<exists>px\<in>set (px # rest).
                       findIndex (\<lambda>q. index q = index px) S \<noteq> - 1
                       \<and> findIndex (\<lambda>q. index q = index px) S \<notin> used)) \<longrightarrow> b \<noteq> None"
        using b' k by blast
      then show ?thesis unfolding e using b by blast
    qed
  qed
qed

lemma encode_byte_total:
  assumes wf: "list_all pixel_wf S" and di: "distinct (map index S)"
    and free: "pos < length S" "int pos \<notin> used"
    and ptr: "possiblePreviousPointers lib K (length S) cur \<noteq> []"
  shows "\<exists>r. encode_byte lib K S used cur byte = Inr r"
proof -
  let ?ptrs = "possiblePreviousPointers lib K (length S) cur"
  have l4: "\<forall>px\<in>set (candidatePixels S byte). length (bytes px) = 4"
    using wf by (simp add: set_candidatePixels_eq list_all_iff pixel_wf_def)
  have f: "findIndex (\<lambda>q. index q = index (S ! pos)) S = int pos"
    by (rule findIndex_distinct [OF di free(1)])
  have m: "S ! pos \<in> set (candidatePixels S byte)"
    using free(1) by (simp add: set_candidatePixels_eq)
  have el: "\<exists>px\<in>set (candidatePixels S byte).
              findIndex (\<lambda>q. index q = index px) S \<noteq> - 1
              \<and> findIndex (\<lambda>q. index q = index px) S \<notin> used"
    using m f free(2) by (intro bexI [of _ "S ! pos"]) simp_all
  from search_total [OF l4, of S used byte ?ptrs None] obtain b where
    b: "search S used byte ?ptrs (candidatePixels S byte) None = Inr b"
    and k: "None \<noteq> (None :: best)
            \<or> (?ptrs \<noteq> [] \<and> (\<exists>px\<in>set (candidatePixels S byte).
                   findIndex (\<lambda>q. index q = index px) S \<noteq> - 1
                   \<and> findIndex (\<lambda>q. index q = index px) S \<notin> used)) \<longrightarrow> b \<noteq> None"
    by blast
  have "b \<noteq> None" using k ptr el by blast
  then obtain r where "b = Some r" by auto
  then have "encode_byte lib K S used cur byte = Inr r" using b by (simp add: encode_byte_def)
  then show ?thesis by (rule exI)
qed

lemma free_position:
  assumes "distinct qs" and "set qs \<subseteq> {..<n}" and "length qs < n"
  shows "\<exists>pos<n. pos \<notin> set qs"
proof (rule ccontr)
  assume "\<not> (\<exists>pos<n. pos \<notin> set qs)"
  then have "{..<n} \<subseteq> set qs" by auto
  then have "card {..<n} \<le> card (set qs)" by (intro card_mono) simp_all
  then show False using assms(1,3) by (simp add: distinct_card)
qed

lemma encode_chain_total:
  assumes wf: "list_all pixel_wf S" and di: "distinct (map index S)"
    and ptr: "\<forall>pos<length S. possiblePreviousPointers lib K (length S) (int pos) \<noteq> []"
  shows "chain_inv lib K S c st \<Longrightarrow> length c + length bs \<le> length S \<Longrightarrow>
     \<exists>st'. encode_chain lib K S bs st = Inr st'"
proof (induction bs arbitrary: c st)
  case Nil
  show ?case by (cases st) auto
next
  case (Cons byte rest)
  obtain E cur used where st: "st = (E, cur, used)" by (cases st) auto
  from Cons.prems(1) st have
    ne: "c \<noteq> []" and cur: "cur = int (snd (hd c))"
    and used: "used = int ` set (map snd c)" and dis: "distinct (map snd c)"
    and all: "\<forall>(e, q)\<in>set c. q < length S"
    by (auto simp: chain_inv_def)
  have sub: "set (map snd c) \<subseteq> {..<length S}" using all by auto
  have "length (map snd c) < length S" using Cons.prems(2) by simp
  from free_position [OF dis sub this] obtain pos where
    pos: "pos < length S" "pos \<notin> set (map snd c)" by blast
  have free: "int pos \<notin> used"
  proof
    assume "int pos \<in> used"
    then obtain q where "q \<in> set (map snd c)" "int pos = int q" unfolding used by blast
    then have "pos \<in> set (map snd c)" by simp
    with pos(2) show False by simp
  qed
  have "hd c \<in> set c" using ne by simp
  then have "snd (hd c) < length S" using all by auto
  then have p: "possiblePreviousPointers lib K (length S) cur \<noteq> []" using ptr cur by simp
  from encode_byte_total [OF wf di pos(1) free p, of byte] obtain bp d bpos where
    eb: "encode_byte lib K S used cur byte = Inr (bp, d, bpos)"
    by (metis prod_cases3)
  have one: "encode_chain lib K S [byte] st = Inr (E @ [bp], bpos, insert bpos used)"
    using eb st by simp
  from encode_chain_inv [OF wf di Cons.prems(1) one] obtain c' where
    inv: "chain_inv lib K S (c' @ c) (E @ [bp], bpos, insert bpos used)"
    and m: "map (\<lambda>(e, q). bytes e ! RED) c' = rev [byte]"
    by blast
  have "length c' = 1" using m by (metis length_map length_rev length_Cons list.size(3) One_nat_def)
  then have len: "length (c' @ c) + length rest \<le> length S" using Cons.prems(2) by simp
  from Cons.IH [OF inv len] obtain st' where
    "encode_chain lib K S rest (E @ [bp], bpos, insert bpos used) = Inr st'" by blast
  then have "encode_chain lib K S (byte # rest) st = Inr st'" using eb st by simp
  then show ?case by (rule exI)
qed

lemma select_last_total:
  "S0 \<noteq> [] \<Longrightarrow> \<exists>S cp cpos. select_last S0 lastByte = Inr (S, cp, cpos)"
proof -
  assume ne: "S0 \<noteq> []"
  let ?key = "\<lambda>a. case lastByte of None \<Rightarrow> 0 | Some b \<Rightarrow> \<bar>uint (bytes a ! RED) - uint b\<bar>"
  have "length (sort_key ?key S0) = length S0" by simp
  then have "sort_key ?key S0 \<noteq> []" using ne by (metis length_0_conv)
  then obtain first rest where "sort_key ?key S0 = first # rest" by (cases "sort_key ?key S0") auto
  then show ?thesis by (simp add: select_last_def Let_def)
qed

lemma build_chain_total:
  assumes di: "distinct idxs" and g0: "getPixels img idxs = Inr S0"
    and ne: "msg_e \<noteq> []" and room: "length msg_e \<le> length idxs"
    and ptr: "\<forall>pos<length idxs. possiblePreviousPointers lib K (length idxs) (int pos) \<noteq> []"
  shows "\<exists>chain. build_chain lib K img idxs msg_e = Inr chain"
proof -
  have wf0: "list_all pixel_wf S0" and ix0: "map index S0 = idxs"
    using getPixels_wf [OF g0] by simp_all
  have "length S0 = length idxs" using ix0 by (metis length_map)
  then have "S0 \<noteq> []" using ne room by auto
  from select_last_total [OF this, of "Some (last msg_e)"] obtain S cp cpos where
    sl: "select_last S0 (Some (last msg_e)) = Inr (S, cp, cpos)" by blast
  have wfS: "list_all pixel_wf S" and ixS: "map index S = idxs"
    using select_last_wf [OF wf0 sl] ix0 by simp_all
  have diS: "distinct (map index S)" using ixS di by simp
  have di0: "distinct (map index S0)" using ix0 di by simp
  have lenS: "length S = length idxs" using ixS by (metis length_map)
  note init = select_last_chain [OF wf0 di0 sl, of lib K, THEN conjunct1]
  have len: "length [(cp, nat cpos)] + length (rev (butlast msg_e)) \<le> length S"
    using ne room lenS by simp
  have ptrS: "\<forall>pos<length S. possiblePreviousPointers lib K (length S) (int pos) \<noteq> []"
    using ptr lenS by simp
  from encode_chain_total [OF wfS diS ptrS init len] obtain st' where
    ec: "encode_chain lib K S (rev (butlast msg_e)) ([cp], cpos, {cpos}) = Inr st'" by blast
  obtain E fp used where "st' = (E, fp, used)" by (cases st') auto
  then have "build_chain lib K img idxs msg_e = Inr (E, fp)"
    using g0 sl ec ne by (simp add: build_chain_def)
  then show ?thesis by (rule exI)
qed

lemma build_chain_indices:
  assumes di: "distinct idxs"
    and bc: "build_chain lib K img idxs msg_e = Inr (E, firstPos)"
  shows "\<forall>e\<in>set E. index e \<in> set idxs"
proof -
  let ?lastByte = "if msg_e = [] then None else Some (last msg_e)"
  from bc obtain S0 S cp cpos used where
    g0: "getPixels img idxs = Inr S0" and
    sl: "select_last S0 ?lastByte = Inr (S, cp, cpos)" and
    ec: "encode_chain lib K S (rev (butlast msg_e)) ([cp], cpos, {cpos}) = Inr (E, firstPos, used)"
    by (auto simp: build_chain_def split: sum.splits)
  have wf0: "list_all pixel_wf S0" and ix0: "map index S0 = idxs"
    using getPixels_wf [OF g0] by simp_all
  have wfS: "list_all pixel_wf S" and ixS: "map index S = idxs"
    using select_last_wf [OF wf0 sl] ix0 by simp_all
  have diS: "distinct (map index S)" using ixS di by simp
  have di0: "distinct (map index S0)" using ix0 di by simp
  note init = select_last_chain [OF wf0 di0 sl, of lib K]
  from encode_chain_inv [OF wfS diS init [THEN conjunct1] ec] obtain c' where
    inv: "chain_inv lib K S (c' @ [(cp, nat cpos)]) (E, firstPos, used)"
    by blast
  let ?c = "c' @ [(cp, nat cpos)]"
  from inv have E: "E = rev (map fst ?c)"
    and all: "\<forall>(e, q)\<in>set ?c. q < length S \<and> index e = index (S ! q)"
    by (auto simp: chain_inv_def)
  show ?thesis
  proof
    fix e assume "e \<in> set E"
    then obtain q where "(e, q) \<in> set ?c" unfolding E by force
    with all have q: "q < length S" and i: "index e = index (S ! q)" by auto
    have "index (S ! q) = idxs ! q" using q ixS by (metis nth_map)
    moreover have "q < length idxs" using q ixS by (metis length_map)
    ultimately show "index e \<in> set idxs" using i by simp
  qed
qed

lemma write_pixels_total:
  "\<forall>e\<in>set E. index e < width img * height img \<Longrightarrow> \<exists>img'. write_pixels img E = (None, img')"
proof (induction E arbitrary: img)
  case Nil
  show ?case by simp
next
  case (Cons e rest)
  have "index e < width img * height img" using Cons.prems by simp
  then obtain img1 where s: "setPixelAt img e = Inr img1"
    and d: "width img1 = width img" "height img1 = height img"
    by (simp add: setPixelAt_def Let_def)
  have "\<forall>e\<in>set rest. index e < width img1 * height img1" using Cons.prems d by simp
  from Cons.IH [OF this] show ?case using s by simp
qed

lemma select_indices_range:
  assumes "select_indices random target k0 acc0 = Some r"
    and "\<forall>k. random k < n" and "\<forall>i\<in>set acc0. i < n"
  shows "\<forall>i\<in>set r. i < n"
proof -
  let ?P = "\<lambda>(rnd :: nat \<Rightarrow> nat) (tg :: jsnum) (k::nat) acc (y::nat list).
      rnd = random \<longrightarrow> (\<forall>i\<in>set acc. i < n) \<longrightarrow> (\<forall>i\<in>set y. i < n)"
  have "?P random target k0 acc0 r"
  proof (rule select_indices.raw_induct [where P = ?P, OF _ assms(1)])
    fix f :: "(nat \<Rightarrow> nat) \<Rightarrow> jsnum \<Rightarrow> nat \<Rightarrow> nat list \<Rightarrow> nat list option"
    fix rnd tg k acc y
    assume IH: "\<And>rnd tg k acc y. f rnd tg k acc = Some y \<Longrightarrow> ?P rnd tg k acc y"
      and eq: "(if js_lt (length acc) tg
                then f rnd tg (Suc k) (if rnd k \<in> set acc then acc else acc @ [rnd k])
                else Some acc) = Some y"
    show "?P rnd tg k acc y"
    proof (intro impI)
      assume rnd: "rnd = random" and acc: "\<forall>i\<in>set acc. i < n"
      show "\<forall>i\<in>set y. i < n"
      proof (cases "js_lt (length acc) tg")
        case True
        let ?acc = "if rnd k \<in> set acc then acc else acc @ [rnd k]"
        have "f rnd tg (Suc k) ?acc = Some y" using eq True by simp
        moreover have "\<forall>i\<in>set ?acc. i < n" using acc rnd assms(2) by simp
        ultimately show ?thesis using IH rnd by blast
      next
        case False
        then have "y = acc" using eq by simp
        then show ?thesis using acc by simp
      qed
    qed
  qed
  then show ?thesis using assms(3) by simp
qed

text \<open>
  encode returns a key when the image is loaded and has room for the ciphertext, the
  candidate set is selected and has room for it too, and every position of the candidate
  set is the target of a pointer.
\<close>

lemma encode_succeeds:
  assumes ready: "isReady img"
    and ne: "aes_encrypt lib K message \<noteq> []"
    and cap: "length (aes_encrypt lib K message) \<le> width img * height img"
    and sel: "encoder_indices lib K img (length (aes_encrypt lib K message)) t = Some idxs"
    and rnd: "\<forall>k. isaac_index lib (toString lib K) (width img * height img) k
                 < width img * height img"
    and room: "length (aes_encrypt lib K message) \<le> length idxs"
    and ptr: "\<forall>pos<length idxs. \<exists>p\<in>set allPointers.
                 next_pixel_idx lib K p (length idxs) = Some pos"
  shows "\<exists>packed img'. encode lib K img message t = Some (Inr packed, img')"
proof -
  let ?m = "aes_encrypt lib K message"
  have di: "distinct idxs" by (rule encoder_indices_distinct [OF sel])
  have rng: "\<forall>i\<in>set idxs. i < width img * height img"
    using sel unfolding encoder_indices_def Let_def
    by (rule select_indices_range [OF _ rnd]) simp
  from getPixels_defined [OF rng] obtain S0 where g0: "getPixels img idxs = Inr S0" by blast
  have ptrs: "\<forall>pos<length idxs. possiblePreviousPointers lib K (length idxs) (int pos) \<noteq> []"
  proof (intro allI impI)
    fix pos assume "pos < length idxs"
    with ptr obtain p where "p \<in> set allPointers"
      "next_pixel_idx lib K p (length idxs) = Some pos" by blast
    then have "p \<in> set (possiblePreviousPointers lib K (length idxs) (int pos))"
      by (simp add: valid_pointer_iff)
    then show "possiblePreviousPointers lib K (length idxs) (int pos) \<noteq> []" by auto
  qed
  from build_chain_total [OF di g0 ne room ptrs] obtain chain where
    bc: "build_chain lib K img idxs ?m = Inr chain" by blast
  obtain E firstPos where chain: "chain = (E, firstPos)" by (cases chain)
  have "\<forall>e\<in>set E. index e < width img * height img"
    using build_chain_indices [OF di bc [unfolded chain]] rng by blast
  from write_pixels_total [OF this] obtain img' where
    wr: "write_pixels img E = (None, img')" by blast
  have "encode lib K img message t
      = Some (commit lib K img (length ?m) (fst (renegotiate t (length ?m))) chain)"
    using ready cap sel bc by (simp add: encode_def Let_def)
  then have "encode lib K img message t
      = Some (Inr (packageKey lib
                \<lparr>key = K, firstPixelIndex = Num firstPos,
                 aliasCount = Num (int (fst (renegotiate t (length ?m)))),
                 msgLength = Num (int (length ?m))\<rparr>), img')"
    using wr chain by (simp add: commit_def)
  then show ?thesis by blast
qed

subsection \<open>Renegotiation\<close>

text \<open>
  C4, for a ciphertext of at most \<open>Q\<close> bytes. When \<open>\<lfloor>Q / t\<rfloor> < L\<close>, encode works with
  the alias count \<open>t' = max(1, \<lfloor>Q / L\<rfloor>)\<close> and the number of positions \<open>\<lfloor>Q / t'\<rfloor>\<close>, which
  is at least \<open>L\<close>. On an image with room for the ciphertext the candidate set, once it
  is selected, has \<open>min(\<lfloor>Q / t'\<rfloor>, W\<cdot>H) \<ge> L\<close> indices. Whenever encode returns a key for
  a ciphertext of two bytes or more, with the master key printed as 64 characters, the
  characters 64 to 67 of that key are the four hexadecimal digits of \<open>t'\<close>, which
  \<open>parseInt\<close> reads back as \<open>t'\<close>. And encode does return a key when the image is loaded,
  the indices selected are pixels of the image and every position of the candidate set is
  the target of a pointer. The example of the specification: \<open>L = 5000\<close> and \<open>t = 32\<close> give
  \<open>t' = 13\<close>, written \<open>000d\<close>.
\<close>

theorem alias_renegotiation:
  assumes low: "num_lt (floor_div DEFAULT_TOTAL_POINTERS (Num (int t))) L"
    and fits: "L \<le> DEFAULT_TOTAL_POINTERS"
  shows "renegotiate t L
           = (max 1 (DEFAULT_TOTAL_POINTERS div L),
              Num (int (DEFAULT_TOTAL_POINTERS div max 1 (DEFAULT_TOTAL_POINTERS div L))))
       \<and> L \<le> DEFAULT_TOTAL_POINTERS div fst (renegotiate t L)
       \<and> (\<forall>lib K img idxs.
             L \<le> width img * height img \<and> encoder_indices lib K img L t = Some idxs \<longrightarrow>
             length idxs = min (DEFAULT_TOTAL_POINTERS div fst (renegotiate t L))
                               (width img * height img)
             \<and> L \<le> length idxs)
       \<and> (\<forall>lib K img message packed img'.
             encode lib K img message t = Some (Inr packed, img')
             \<and> length (aes_encrypt lib K message) = L
             \<and> length (toString lib K) = 64 \<and> 2 \<le> L \<longrightarrow>
             slice packed 64 68 = padStart 4 (hex_of_nat (fst (renegotiate t L)))
             \<and> length (slice packed 64 68) = 4
             \<and> parseInt16 (slice packed 64 68) = Num (int (fst (renegotiate t L))))
       \<and> (\<forall>lib K img message idxs.
             isReady img \<and> length (aes_encrypt lib K message) = L
             \<and> L \<le> width img * height img
             \<and> encoder_indices lib K img L t = Some idxs
             \<and> (\<forall>k. isaac_index lib (toString lib K) (width img * height img) k
                     < width img * height img)
             \<and> (\<forall>pos<length idxs. \<exists>p\<in>set allPointers.
                     next_pixel_idx lib K p (length idxs) = Some pos) \<longrightarrow>
             (\<exists>packed img'. encode lib K img message t = Some (Inr packed, img')))
       \<and> renegotiate 32 5000 = (13, Num 5041)
       \<and> padStart 4 (hex_of_nat 13) = ''000d''"
proof -
  let ?Q = DEFAULT_TOTAL_POINTERS
  note r = renegotiate_lowered [OF low fits]
  have m: "max 1 (?Q div L) = ?Q div L" using r(4) by simp
  have a: "fst (renegotiate t L) = ?Q div L" by (simp add: r(1))
  have t1: "1 \<le> fst (renegotiate t L)" using a r(4) by simp
  have 1: "renegotiate t L = (max 1 (?Q div L), Num (int (?Q div max 1 (?Q div L))))"
    unfolding m by (rule r(1))
  have 2: "L \<le> ?Q div fst (renegotiate t L)" using r(2) a by simp
  have 3: "length idxs = min (?Q div fst (renegotiate t L)) (width img * height img)
           \<and> L \<le> length idxs"
    if "L \<le> width img * height img \<and> encoder_indices lib K img L t = Some idxs"
    for lib K img idxs
  proof -
    from that have cap: "L \<le> width img * height img"
      and i: "encoder_indices lib K img L t = Some idxs" by simp_all
    from encoder_indices_length [OF t1 i] show ?thesis using 2 cap by simp
  qed
  have 4: "slice packed 64 68 = padStart 4 (hex_of_nat (fst (renegotiate t L)))
           \<and> length (slice packed 64 68) = 4
           \<and> parseInt16 (slice packed 64 68) = Num (int (fst (renegotiate t L)))"
    if h: "encode lib K img message t = Some (Inr packed, img')
           \<and> length (aes_encrypt lib K message) = L
           \<and> length (toString lib K) = 64 \<and> 2 \<le> L"
    for lib K img message packed img'
  proof -
    from h have enc: "encode lib K img message t = Some (Inr packed, img')"
      and L: "length (aes_encrypt lib K message) = L"
      and k64: "length (toString lib K) = 64" and L2: "2 \<le> L" by simp_all
    have "?Q div L \<le> ?Q div 2" using L2 by (rule div_le_mono2 [rotated]) simp
    also have "\<dots> < 65536" by (simp add: DEFAULT_TOTAL_POINTERS_def POINTER_CHANNEL_COUNT_def)
    finally have small: "fst (renegotiate t L) < 65536" using a by simp
    from encode_cases [OF enc] obtain chain where
      c: "(Inr packed, img') = commit lib K img L (fst (renegotiate t L)) chain"
      unfolding L by auto
    have p: "packed = packageKey lib \<lparr>key = K, firstPixelIndex = Num (snd chain),
                aliasCount = Num (int (fst (renegotiate t L))), msgLength = Num (int L)\<rparr>"
      by (rule commit_key [OF c [symmetric]])
    have f: "slice packed 64 68 = padStart 4 (hex_of_nat (fst (renegotiate t L)))"
      unfolding p by (rule alias_field [OF k64 small])
    show ?thesis unfolding f using padded_field [OF small] by simp
  qed
  have 7: "\<exists>packed img'. encode lib K img message t = Some (Inr packed, img')"
    if h: "isReady img \<and> length (aes_encrypt lib K message) = L
           \<and> L \<le> width img * height img
           \<and> encoder_indices lib K img L t = Some idxs
           \<and> (\<forall>k. isaac_index lib (toString lib K) (width img * height img) k
                   < width img * height img)
           \<and> (\<forall>pos<length idxs. \<exists>p\<in>set allPointers.
                   next_pixel_idx lib K p (length idxs) = Some pos)"
    for lib K img message idxs
  proof -
    from h have ready: "isReady img" and L: "length (aes_encrypt lib K message) = L"
      and cap: "L \<le> width img * height img"
      and sel: "encoder_indices lib K img L t = Some idxs"
      and rnd: "\<forall>k. isaac_index lib (toString lib K) (width img * height img) k
                   < width img * height img"
      and ptr: "\<forall>pos<length idxs. \<exists>p\<in>set allPointers.
                   next_pixel_idx lib K p (length idxs) = Some pos"
      by simp_all
    have ne: "aes_encrypt lib K message \<noteq> []" using L r(3) by auto
    have room: "L \<le> length idxs" by (rule 3 [OF conjI [OF cap sel], THEN conjunct2])
    show ?thesis
      by (rule encode_succeeds [OF ready ne _ _ rnd _ ptr]) (simp_all add: L cap sel room)
  qed
  have 5: "renegotiate 32 5000 = (13, Num 5041)"
    by (simp add: renegotiate_def floor_div_def num_lt_def DEFAULT_TOTAL_POINTERS_def
        POINTER_CHANNEL_COUNT_def)
  have "hex_of_nat 13 = ''d''" by (simp add: hex_of_nat.simps hex_char_def char_of_def bit_simps)
  then have 6: "padStart 4 (hex_of_nat 13) = ''000d''" by (simp add: padStart_def numeral_3_eq_3)
  show ?thesis
  proof (intro conjI allI impI)
    show "renegotiate t L = (max 1 (?Q div L), Num (int (?Q div max 1 (?Q div L))))" by (rule 1)
    show "L \<le> ?Q div fst (renegotiate t L)" by (rule 2)
    show "renegotiate 32 5000 = (13, Num 5041)" by (rule 5)
    show "padStart 4 (hex_of_nat 13) = ''000d''" by (rule 6)
  next
    fix lib :: crypto_lib and K img idxs
    assume "L \<le> width img * height img \<and> encoder_indices lib K img L t = Some idxs"
    note x = 3 [OF this]
    show "length idxs = min (?Q div fst (renegotiate t L)) (width img * height img)"
      by (rule x [THEN conjunct1])
    show "L \<le> length idxs" by (rule x [THEN conjunct2])
  next
    fix lib :: crypto_lib and K img message packed img'
    assume "encode lib K img message t = Some (Inr packed, img')
           \<and> length (aes_encrypt lib K message) = L
           \<and> length (toString lib K) = 64 \<and> 2 \<le> L"
    note y = 4 [OF this]
    show "slice packed 64 68 = padStart 4 (hex_of_nat (fst (renegotiate t L)))"
      by (rule y [THEN conjunct1])
    show "length (slice packed 64 68) = 4" by (rule y [THEN conjunct2, THEN conjunct1])
    show "parseInt16 (slice packed 64 68) = Num (int (fst (renegotiate t L)))"
      by (rule y [THEN conjunct2, THEN conjunct2])
  next
    fix lib :: crypto_lib and K img message idxs
    assume "isReady img \<and> length (aes_encrypt lib K message) = L
           \<and> L \<le> width img * height img
           \<and> encoder_indices lib K img L t = Some idxs
           \<and> (\<forall>k. isaac_index lib (toString lib K) (width img * height img) k
                   < width img * height img)
           \<and> (\<forall>pos<length idxs. \<exists>p\<in>set allPointers.
                   next_pixel_idx lib K p (length idxs) = Some pos)"
    then show "\<exists>packed img'. encode lib K img message t = Some (Inr packed, img')"
      by (rule 7)
  qed
qed

subsection \<open>A run of encode that finds no pointer\<close>

lemma flat_aes: "aes_encrypt flat_lib toy_key ''AC'' = [65, 67]"
proof -
  have "aes_encrypt flat_lib toy_key ''AC'' = aes_encrypt toy_lib toy_key ''AC''"
    by (simp add: aes_encrypt_def flat_lib_def)
  then show ?thesis by (simp only: toy_aes)
qed

lemma flat_indices: "encoder_indices flat_lib toy_key toy_image 2 65536 = Some [0, 1]"
proof -
  have "encoder_indices flat_lib toy_key toy_image 2 65536
      = encoder_indices toy_lib toy_key toy_image 2 65536"
    by (simp add: encoder_indices_def flat_lib_def)
  then show ?thesis by (simp only: toy_indices_Q)
qed

lemma flat_next: "next_pixel_idx flat_lib K p 2 = Some 0"
  by (simp add: next_pixel_idx_def flat_lib_def word_at_def)

lemma flat_no_pointer: "possiblePreviousPointers flat_lib K 2 1 = []"
  by (simp add: possiblePreviousPointers_def flat_next)

lemma flat_byte:
  "encode_byte flat_lib toy_key
     [toy_px 0 [65, 0, 5, 255], (toy_px 1 [66, 9, 9, 255])\<lparr>bytes := [67, 9, 9, 255]\<rparr>] {1} 1 65
   = Inl InvariantViolated"
proof (rule encode_byte_no_pointer)
  have "length [toy_px 0 [65, 0, 5, 255], (toy_px 1 [66, 9, 9, 255])\<lparr>bytes := [67, 9, 9, 255]\<rparr>] = 2"
    by simp
  then show "possiblePreviousPointers flat_lib toy_key
      (length [toy_px 0 [65, 0, 5, 255], (toy_px 1 [66, 9, 9, 255])\<lparr>bytes := [67, 9, 9, 255]\<rparr>]) 1 = []"
    by (simp only: flat_no_pointer)
qed

lemma flat_chain:
  "build_chain flat_lib toy_key toy_image [0, 1] [65, 67] = Inl InvariantViolated"
proof -
  have lb: "(if [65, 67 :: byte] = [] then None else Some (last [65, 67])) = Some 67" by simp
  have rb: "rev (butlast [65, 67 :: byte]) = [65]" by simp
  show ?thesis
    by (simp only: build_chain_def toy_pixels2 sum.case lb toy_last2 prod.case rb
        encode_chain.simps flat_byte)
qed

lemma flat_encode:
  "encode flat_lib toy_key toy_image ''AC'' 65536 = Some (Inl InvariantViolated, toy_image)"
proof -
  have r: "isReady toy_image" "width toy_image * height toy_image = 4"
    by (simp_all add: toy_image_def)
  have len: "length [65, 67 :: byte] = 2" by simp
  have lt: "\<not> (2 :: nat) > 4" by simp
  show ?thesis
    by (simp only: encode_def r Let_def flat_aes len lt flat_indices flat_chain
        not_True_eq_False if_False option.case sum.case)
qed

subsection \<open>A run of encode at an alias count above \<open>Q\<close>\<close>

lemma toy_aes_A: "aes_encrypt toy_lib toy_key ''A'' = [65]"
  unfolding toy_lib_def by code_simp

lemma toy_renegotiate_far: "renegotiate 70000 1 = (65536, Num 1)"
  by (simp add: renegotiate_def floor_div_def num_lt_def DEFAULT_TOTAL_POINTERS_def
      POINTER_CHANNEL_COUNT_def)

lemma toy_select1: "select_indices (\<lambda>k. k mod 4) (Num 1) 0 [] = Some [0]"
  by code_simp

lemma toy_indices_far: "encoder_indices toy_lib toy_key toy_image 1 70000 = Some [0]"
proof -
  have "js_min (snd (renegotiate 70000 1)) (width toy_image * height toy_image) = Num 1"
    unfolding toy_renegotiate_far snd_conv by (simp add: js_min_def toy_image_def)
  then show ?thesis
    unfolding encoder_indices_def Let_def by (simp add: toy_image_def toy_lib_def toy_select1)
qed

lemma toy_pixels1: "getPixels toy_image [0] = Inr [toy_px 0 [65, 0, 5, 255]]"
  unfolding toy_px_def toy_image_def by code_simp

lemma toy_last1:
  "select_last [toy_px 0 [65, 0, 5, 255]] (Some 65)
     = Inr ([toy_px 0 [65, 0, 5, 255]], toy_px 0 [65, 0, 5, 255], 0)"
  unfolding toy_px_def by code_simp

lemma toy_chain1:
  "build_chain toy_lib toy_key toy_image [0] [65] = Inr ([toy_px 0 [65, 0, 5, 255]], 0)"
proof -
  have lb: "(if [65 :: byte] = [] then None else Some (last [65])) = Some 65" by simp
  have rb: "rev (butlast [65 :: byte]) = []" by simp
  show ?thesis
    by (simp only: build_chain_def toy_pixels1 sum.case lb toy_last1 prod.case rb
        encode_chain.simps)
qed

lemma toy_write1: "write_pixels toy_image [toy_px 0 [65, 0, 5, 255]] = (None, toy_image)"
  unfolding toy_px_def toy_image_def by code_simp

lemma toy_commit1:
  "commit toy_lib toy_key toy_image 1 65536 ([toy_px 0 [65, 0, 5, 255]], 0)
   = (Inr (replicate 64 (CHR ''0'') @ ''1000000010''), toy_image)"
proof -
  have k: "packageKey toy_lib \<lparr>key = toy_key, firstPixelIndex = Num 0,
                               aliasCount = Num (int 65536), msgLength = Num (int 1)\<rparr>
           = replicate 64 (CHR ''0'') @ ''1000000010''"
    using toy_package_Q by simp
  show ?thesis
    by (simp only: commit_def prod.case toy_write1 option.case k)
qed

lemma toy_encode_far:
  "encode toy_lib toy_key toy_image ''A'' 70000
   = Some (Inr (replicate 64 (CHR ''0'') @ ''1000000010''), toy_image)"
proof -
  have r: "isReady toy_image" "width toy_image * height toy_image = 4"
    by (simp_all add: toy_image_def)
  have len: "length [65 :: byte] = 1" by simp
  have lt: "\<not> (1 :: nat) > 4" by simp
  show ?thesis
    by (simp only: encode_def r Let_def toy_aes_A len lt toy_indices_far toy_chain1
        toy_renegotiate_far fst_conv toy_commit1 not_True_eq_False if_False option.case sum.case)
qed

lemma toy_alias_field:
  "parseInt16 (slice (replicate 64 (CHR ''0'') @ ''1000000010'') 64 68) = Num 4096"
proof -
  have f: "slice (replicate 64 (CHR ''0'') @ ''1000000010'') 64 68 = ''1000''"
    by (simp add: slice_def)
  have v: "hex_value ''1000'' = 4096" by (simp add: hex_value_def hex_digit_def)
  have d: "\<forall>c\<in>set ''1000''. hex_digit c \<noteq> None" by (simp add: hex_digit_def)
  show ?thesis unfolding f using parseInt16_hex [OF _ d] by (simp add: v)
qed

text \<open>
  Three runs against the claim as it is written. For a ciphertext of \<open>65552\<close> bytes, a
  length that the cipher produces, the alias count in effect is 1 and \<open>\<lfloor>Q / 1\<rfloor> = 65536\<close>
  positions are fewer than the bytes to place. With a tag function under which no pointer
  resolves to position 1, encode lowers the alias count \<open>65536\<close> to \<open>32768\<close> for a
  ciphertext of two bytes, has two positions and four pixels for them, and fails all the
  same, with the error of the violated invariant. And for the alias count \<open>70000\<close> and a
  ciphertext of one byte the alias count in effect is \<open>65536\<close>, whose five digits do not
  fit the field: the key that encode returns carries \<open>1000\<close> there, which is \<open>4096\<close>.
\<close>

theorem alias_renegotiation_fails:
  "num_lt (floor_div DEFAULT_TOTAL_POINTERS (Num (int 32))) 65552
   \<and> fst (renegotiate 32 65552) = 1
   \<and> DEFAULT_TOTAL_POINTERS div fst (renegotiate 32 65552) < 65552
   \<and> num_lt (floor_div DEFAULT_TOTAL_POINTERS (Num (int 65536)))
        (length (aes_encrypt flat_lib toy_key ''AC''))
   \<and> length (aes_encrypt flat_lib toy_key ''AC'') \<le> DEFAULT_TOTAL_POINTERS
   \<and> length (aes_encrypt flat_lib toy_key ''AC'') \<le> width toy_image * height toy_image
   \<and> encode flat_lib toy_key toy_image ''AC'' 65536 = Some (Inl InvariantViolated, toy_image)
   \<and> num_lt (floor_div DEFAULT_TOTAL_POINTERS (Num (int 70000)))
        (length (aes_encrypt toy_lib toy_key ''A''))
   \<and> fst (renegotiate 70000 (length (aes_encrypt toy_lib toy_key ''A''))) = 65536
   \<and> encode toy_lib toy_key toy_image ''A'' 70000
       = Some (Inr (replicate 64 (CHR ''0'') @ ''1000000010''), toy_image)
   \<and> parseInt16 (slice (replicate 64 (CHR ''0'') @ ''1000000010'') 64 68) = Num 4096"
proof -
  have la: "length (aes_encrypt flat_lib toy_key ''AC'') = 2" by (simp add: flat_aes)
  have lb: "length (aes_encrypt toy_lib toy_key ''A'') = 1" by (simp add: toy_aes_A)
  have 1: "num_lt (floor_div DEFAULT_TOTAL_POINTERS (Num (int 32))) 65552"
    by (simp add: num_lt_def floor_div_def DEFAULT_TOTAL_POINTERS_def POINTER_CHANNEL_COUNT_def)
  have 2: "fst (renegotiate 32 65552) = 1"
    by (simp add: renegotiate_def floor_div_def num_lt_def DEFAULT_TOTAL_POINTERS_def
        POINTER_CHANNEL_COUNT_def)
  have 3: "DEFAULT_TOTAL_POINTERS div fst (renegotiate 32 65552) < 65552"
    unfolding 2 by (simp add: DEFAULT_TOTAL_POINTERS_def POINTER_CHANNEL_COUNT_def)
  have 4: "num_lt (floor_div DEFAULT_TOTAL_POINTERS (Num (int 65536)))
        (length (aes_encrypt flat_lib toy_key ''AC''))"
    unfolding la
    by (simp add: num_lt_def floor_div_def DEFAULT_TOTAL_POINTERS_def POINTER_CHANNEL_COUNT_def)
  have 5: "length (aes_encrypt flat_lib toy_key ''AC'') \<le> DEFAULT_TOTAL_POINTERS"
    unfolding la by (simp add: DEFAULT_TOTAL_POINTERS_def POINTER_CHANNEL_COUNT_def)
  have 6: "length (aes_encrypt flat_lib toy_key ''AC'') \<le> width toy_image * height toy_image"
    unfolding la by (simp add: toy_image_def)
  have 7: "num_lt (floor_div DEFAULT_TOTAL_POINTERS (Num (int 70000)))
        (length (aes_encrypt toy_lib toy_key ''A''))"
    unfolding lb
    by (simp add: num_lt_def floor_div_def DEFAULT_TOTAL_POINTERS_def POINTER_CHANNEL_COUNT_def)
  have 8: "fst (renegotiate 70000 (length (aes_encrypt toy_lib toy_key ''A''))) = 65536"
    by (simp only: lb toy_renegotiate_far fst_conv)
  show ?thesis
    by (intro conjI 1 2 3 4 5 6 flat_encode 7 8 toy_encode_far toy_alias_field)
qed

text \<open>
  The theorem on the small image, where encode lowers the alias count \<open>65536\<close> to \<open>32768\<close>
  for a ciphertext of two bytes and writes \<open>8000\<close> into the key.
\<close>

theorem alias_renegotiation_witness:
  "num_lt (floor_div DEFAULT_TOTAL_POINTERS (Num (int 65536))) 2
   \<and> 2 \<le> DEFAULT_TOTAL_POINTERS
   \<and> renegotiate 65536 2 = (32768, Num 2)
   \<and> 2 \<le> DEFAULT_TOTAL_POINTERS div fst (renegotiate 65536 2)
   \<and> encoder_indices toy_lib toy_key toy_image 2 65536 = Some [0, 1]
   \<and> length [0, 1 :: nat] = min (DEFAULT_TOTAL_POINTERS div fst (renegotiate 65536 2))
                                 (width toy_image * height toy_image)
   \<and> encode toy_lib toy_key toy_image ''AC'' 65536
       = Some (Inr (replicate 64 (CHR ''0'') @ ''800000020''),
          toy_image\<lparr>channels := [65, 0, 5, 255,  67, 9, 9, 255,  30, 0, 2, 255,  40, 0, 3, 255]\<rparr>)
   \<and> slice (replicate 64 (CHR ''0'') @ ''800000020'') 64 68
       = padStart 4 (hex_of_nat (fst (renegotiate 65536 2)))
   \<and> slice (replicate 64 (CHR ''0'') @ ''800000020'') 64 68 = ''8000''
   \<and> parseInt16 (slice (replicate 64 (CHR ''0'') @ ''800000020'') 64 68)
       = Num (int (fst (renegotiate 65536 2)))
   \<and> next_pixel_idx toy_lib toy_key [0, 0] (length [0, 1 :: nat]) = Some 0
   \<and> next_pixel_idx toy_lib toy_key [0, 1] (length [0, 1 :: nat]) = Some 1
   \<and> (\<exists>packed img'. encode toy_lib toy_key toy_image ''AC'' 65536 = Some (Inr packed, img'))"
proof -
  have r: "isReady toy_image" by (simp add: toy_image_def)
  have rnd: "\<forall>k. isaac_index toy_lib (toString toy_lib toy_key) (width toy_image * height toy_image) k
               < width toy_image * height toy_image"
    by (simp add: toy_lib_def toy_image_def)
  have n0: "next_pixel_idx toy_lib toy_key [0, 0] (length [0, 1 :: nat]) = Some 0"
    by (simp add: next_pixel_idx_def toy_lib_def word_at_def channel_at_def)
  have n1: "next_pixel_idx toy_lib toy_key [0, 1] (length [0, 1 :: nat]) = Some 1"
    by (simp add: next_pixel_idx_def toy_lib_def word_at_def channel_at_def)
  have "(0::nat) < DEFAULT_TOTAL_POINTERS" "(1::nat) < DEFAULT_TOTAL_POINTERS"
    by (simp_all add: DEFAULT_TOTAL_POINTERS_def POINTER_CHANNEL_COUNT_def)
  from allPointers_member [OF this(1)] allPointers_member [OF this(2)]
  have m: "[0, 0 :: byte] \<in> set allPointers" "[0, 1 :: byte] \<in> set allPointers" by simp_all
  have ptr: "\<forall>pos<length [0, 1 :: nat]. \<exists>p\<in>set allPointers.
               next_pixel_idx toy_lib toy_key p (length [0, 1 :: nat]) = Some pos"
  proof (intro allI impI)
    fix pos :: nat assume "pos < length [0, 1 :: nat]"
    then have "pos = 0 \<or> pos = 1" by auto
    then show "\<exists>p\<in>set allPointers. next_pixel_idx toy_lib toy_key p (length [0, 1 :: nat]) = Some pos"
      using m n0 n1 by blast
  qed
  have L: "length (aes_encrypt toy_lib toy_key ''AC'') = 2" by (simp add: toy_aes)
  have low: "num_lt (floor_div DEFAULT_TOTAL_POINTERS (Num (int 65536))) 2"
    by (simp add: num_lt_def floor_div_def DEFAULT_TOTAL_POINTERS_def POINTER_CHANNEL_COUNT_def)
  have fits: "(2::nat) \<le> DEFAULT_TOTAL_POINTERS"
    by (simp add: DEFAULT_TOTAL_POINTERS_def POINTER_CHANNEL_COUNT_def)
  have cap: "2 \<le> width toy_image * height toy_image" by (simp add: toy_image_def)
  have k64: "length (toString toy_lib toy_key) = 64" by (simp add: toy_lib_def)
  note c = alias_renegotiation [OF low fits]
  note c2 = c [THEN conjunct2, THEN conjunct1]
  note c3 = c [THEN conjunct2, THEN conjunct2, THEN conjunct1, rule_format,
      of toy_image toy_lib toy_key "[0, 1]", OF conjI [OF cap toy_indices_Q]]
  have two: "(2::nat) \<le> 2" by simp
  note c4 = c [THEN conjunct2, THEN conjunct2, THEN conjunct2, THEN conjunct1, rule_format,
      of toy_lib toy_key toy_image "''AC''" _ _,
      OF conjI [OF toy_encode_Q conjI [OF L conjI [OF k64 two]]]]
  note c5 = c [THEN conjunct2, THEN conjunct2, THEN conjunct2, THEN conjunct2, THEN conjunct1,
      rule_format, of toy_image toy_lib toy_key "''AC''" "[0, 1]",
      OF conjI [OF r conjI [OF L conjI [OF cap conjI [OF toy_indices_Q conjI [OF rnd ptr]]]]]]
  have f: "slice (replicate 64 (CHR ''0'') @ ''800000020'') 64 68 = ''8000''"
    by (simp add: slice_def)
  show ?thesis
    by (intro conjI low fits toy_renegotiate_Q c2 toy_indices_Q c3 [THEN conjunct1] toy_encode_Q
        c4 [THEN conjunct1] f c4 [THEN conjunct2, THEN conjunct2] n0 n1 c5)
qed

end
